theory Spec2Isabelle
  imports Complex_Main "HOL-Library.Sublist" "HOL-Library.Log_Nat"
begin

section \<open>The timing utilities of \<open>dpvo/utils.py\<close>\<close>

text \<open>
  The module keeps one global dictionary \<^verbatim>\<open>all_times\<close> from dotted names to lists of
  elapsed times, filled by the context manager \<^verbatim>\<open>Timer\<close>, and prints it as a tree with
  \<^verbatim>\<open>print_timing_summary\<close>.

  Modelling decisions.
  \<^item> A Python \<^verbatim>\<open>str\<close> is a \<^typ>\<open>string\<close>, one \<^typ>\<open>char\<close> for each character (so the
    characters are those below 256); the separator is \<open>CHR ''.''\<close>.
  \<^item> A Python \<^verbatim>\<open>float\<close> sample is the \<^typ>\<open>real\<close> number it denotes; every sum and
    quotient is rounded to the nearest binary64 number, as IEEE arithmetic does.
    Infinities, NaN and the sign of a zero are outside the model.
  \<^item> \<^verbatim>\<open>extend\<close> and \<^verbatim>\<open>_print_exclusive\<close> are recursive. They are given twice: as total
    functions, which say what a call does when it returns, and as calls that carry the
    number of nested calls the interpreter still allows and raise \<^verbatim>\<open>RecursionError\<close>
    when it is used up.
  \<^item> A Python \<^verbatim>\<open>dict\<close> iterates in insertion order and has unique keys: it is an
    association list, kept in first-insertion order.
  \<^item> The mutable state (the global \<^verbatim>\<open>all_times\<close> and the CUDA runtime) is a record that
    the operations take and return; an exception is the \<open>Inl\<close> of a sum.
  \<^item> Every \<^verbatim>\<open>print\<close> call contributes one element (its argument) to the output list.
  \<^item> Lists are values, except in the last subsection of the model, where the tree is
    built a second time on a heap of list objects.
\<close>

subsection \<open>Data model\<close>

type_synonym sample = real

text \<open>\<^verbatim>\<open>all_times: dict[str, list] = defaultdict(list)\<close>\<close>

type_synonym recorder = "(string \<times> sample list) list"

text \<open>
  \<^verbatim>\<open>class _Node\<close> with its two slots. \<^verbatim>\<open>_Node()\<close> is \<open>Node [] []\<close>.
\<close>

datatype node = Node (self_times: "sample list") (children: "(string \<times> node) list")

text \<open>The exceptions the modelled code can raise.\<close>

datatype py_error = ZeroDivisionError | AttributeError | RuntimeError | RecursionError

text \<open>
  What \<^verbatim>\<open>Timer\<close> can touch: the global \<^verbatim>\<open>all_times\<close> and the CUDA runtime. Of the
  runtime the model keeps the event objects created so far (an event is the device time
  of its last \<^verbatim>\<open>record()\<close>, if any), the device clock that \<^verbatim>\<open>record()\<close> reads, and the
  number of \<^verbatim>\<open>torch.cuda.synchronize()\<close> calls. An event is named by its position in
  \<open>events\<close>.
\<close>

record world =
  all_times :: recorder
  events :: "sample option list"
  clock :: sample
  syncs :: nat

text \<open>
  A \<^verbatim>\<open>Timer\<close> object with its attributes \<^verbatim>\<open>name\<close>, \<^verbatim>\<open>enabled\<close>, \<^verbatim>\<open>start\<close> and \<^verbatim>\<open>end\<close>.
  The last two exist only when \<^verbatim>\<open>__init__\<close> ran with \<^verbatim>\<open>enabled\<close> true: \<open>None\<close> is a
  missing attribute.
\<close>

record timer =
  timer_name :: string
  timer_enabled :: bool
  timer_start :: "nat option"
  timer_end :: "nat option"

subsection \<open>\<^verbatim>\<open>str.split('.')\<close>\<close>

text \<open>
  Python's \<^verbatim>\<open>s.split(sep)\<close> with an explicit one-character separator cuts at every
  occurrence of the separator and keeps empty pieces; \<open>cur\<close> is the piece being read.
\<close>

fun split_from :: "char \<Rightarrow> string \<Rightarrow> string \<Rightarrow> string list" where
  "split_from sep cur [] = [cur]"
| "split_from sep cur (c # cs) =
     (if c = sep then cur # split_from sep [] cs else split_from sep (cur @ [c]) cs)"

definition split :: "string \<Rightarrow> string list" where
  "split fullname = split_from (CHR ''.'') [] fullname"

subsection \<open>\<^verbatim>\<open>_Node.extend\<close>\<close>

text \<open>
  \<^verbatim>\<open>self.children[k]\<close> on a \<^verbatim>\<open>defaultdict(_Node)\<close> returns the child stored under \<open>k\<close>,
  after storing a fresh \<^verbatim>\<open>_Node()\<close> at the end of the dictionary when \<open>k\<close> is missing;
  \<open>f\<close> is the mutation then applied to that child.
\<close>

fun modify_default :: "(node \<Rightarrow> node) \<Rightarrow> string \<Rightarrow> (string \<times> node) list \<Rightarrow> (string \<times> node) list" where
  "modify_default f k [] = [(k, f (Node [] []))]"
| "modify_default f k ((k', c) # rest) =
     (if k' = k then (k', f c) # rest else (k', c) # modify_default f k rest)"

text \<open>
  \<^verbatim>\<open>
  def extend(self, parts, values):
      if not parts:
          self.self_times.extend(values)
      else:
          self.children[parts[0]].extend(parts[1:], values)
  \<close>
\<close>

fun extend :: "node \<Rightarrow> string list \<Rightarrow> sample list \<Rightarrow> node" where
  "extend self [] vs = Node (self_times self @ vs) (children self)"
| "extend self (p # ps) vs =
     Node (self_times self) (modify_default (\<lambda>child. extend child ps vs) p (children self))"

text \<open>
  The first loop of \<^verbatim>\<open>print_timing_summary\<close>:
  \<^verbatim>\<open>
  root = _Node()
  for fullname, lst in all_times.items():
      root.extend(fullname.split('.'), lst)
  \<close>
\<close>

definition build_step :: "node \<Rightarrow> string \<times> sample list \<Rightarrow> node" where
  "build_step r item = extend r (split (fst item)) (snd item)"

definition build_tree :: "recorder \<Rightarrow> node" where
  "build_tree items = foldl build_step (Node [] []) items"

subsection \<open>Numbers and their formatting\<close>

text \<open>
  A Python \<^verbatim>\<open>float\<close> is an IEEE 754 binary64 number, and every sum and quotient of floats
  is the exact result rounded to the nearest such number, a tie going to the one with an
  even significand. A sample is the real number its float denotes; \<open>round_double\<close> is
  the rounding. \<open>binade x\<close> is the exponent \<open>e\<close> with \<open>2 ^ e \<le> \<bar>x\<bar> < 2 ^ (e + 1)\<close>; a
  binary64 number has a significand of 53 bits, and below \<open>2 ^ (- 1022)\<close> the spacing of
  the numbers stays that of the smallest binade. Results too large for a binary64 number
  (which Python gives as \<^verbatim>\<open>inf\<close>) and the sign of a zero are not represented.
\<close>

definition round_half_even :: "real \<Rightarrow> int" where
  "round_half_even x =
     (let f = \<lfloor>x\<rfloor>; d = x - of_int f
      in if d < 1 / 2 then f else if 1 / 2 < d then f + 1 else if even f then f else f + 1)"

definition binade :: "real \<Rightarrow> int" where
  "binade x =
     (if 1 \<le> \<bar>x\<bar> then bitlen \<lfloor>\<bar>x\<bar>\<rfloor> - 1 else - bitlen (\<lceil>1 / \<bar>x\<bar>\<rceil> - 1))"

definition round_double :: "real \<Rightarrow> real" where
  "round_double x =
     (if x = 0 then 0
      else (let q = max (binade x) (- 1022) - 52;
                m = round_half_even (\<bar>x\<bar> / 2 powi q)
            in sgn x * of_int m * 2 powi q))"

text \<open>
  \<^verbatim>\<open>sum(xs)\<close> starts at \<open>0\<close> and adds the elements from the left, each partial sum being
  a float.
\<close>

definition py_sum :: "sample list \<Rightarrow> sample" where
  "py_sum xs = foldl (\<lambda>acc x. round_double (acc + x)) 0 xs"

text \<open>
  \<^verbatim>\<open>total/count\<close> with a float \<^verbatim>\<open>total\<close> and an int \<^verbatim>\<open>count\<close>: the int is converted to a
  float and the quotient is a float; a zero divisor raises \<^verbatim>\<open>ZeroDivisionError\<close>.
\<close>

definition truediv :: "sample \<Rightarrow> nat \<Rightarrow> py_error + sample" where
  "truediv a b =
     (if b = 0 then Inl ZeroDivisionError
      else Inr (round_double (a / round_double (real b))))"

definition digit_char :: "nat \<Rightarrow> char" where
  "digit_char d = ''0123456789'' ! d"

text \<open>The decimal digits of a natural number, as \<^verbatim>\<open>str(n)\<close> and \<^verbatim>\<open>f"{n}"\<close> give them.\<close>

function show_nat :: "nat \<Rightarrow> string" where
  "show_nat n = (if n < 10 then [digit_char n] else show_nat (n div 10) @ [digit_char (n mod 10)])"
  by pat_completeness auto
termination
  by (relation "measure id") auto

declare show_nat.simps [simp del]

text \<open>
  The format specifications \<^verbatim>\<open>.0f\<close> and \<^verbatim>\<open>.2f\<close>: the value is rounded to \<open>prec\<close>
  decimals, a tie going to the even neighbour, and written with a sign only when it is
  negative, at least one digit before the point, and no point when \<open>prec = 0\<close>.
\<close>

definition format_f :: "nat \<Rightarrow> real \<Rightarrow> string" where
  "format_f prec x =
     (let digits = show_nat (nat (round_half_even (\<bar>x\<bar> * 10 ^ prec)));
          padded = replicate (Suc prec - length digits) (CHR ''0'') @ digits;
          k = length padded - prec
      in (if x < 0 then ''-'' else [])
         @ take k padded
         @ (if prec = 0 then [] else ''.'' @ drop k padded))"

text \<open>\<^verbatim>\<open>f"{name:<15s}"\<close>: left-aligned in a field of at least \<open>width\<close> characters.\<close>

definition ljust :: "nat \<Rightarrow> string \<Rightarrow> string" where
  "ljust width s = s @ replicate (width - length s) (CHR '' '')"

text \<open>\<^verbatim>\<open>"    " * indent\<close>\<close>

definition pad_of :: "nat \<Rightarrow> string" where
  "pad_of indent = concat (replicate indent ''    '')"

text \<open>
  \<^verbatim>\<open>
  f"{pad}{name:<15s} total {total:.0f} ms   " f"{count} runs   avg {avg:.2f} ms"
  \<close>
\<close>

definition format_line :: "string \<Rightarrow> string \<Rightarrow> sample \<Rightarrow> nat \<Rightarrow> sample \<Rightarrow> string" where
  "format_line pad name tot cnt avg =
     pad @ ljust 15 name @ '' total '' @ format_f 0 tot @ '' ms   ''
       @ show_nat cnt @ '' runs   avg '' @ format_f 2 avg @ '' ms''"

subsection \<open>\<^verbatim>\<open>_print_exclusive\<close> and \<^verbatim>\<open>print_timing_summary\<close>\<close>

text \<open>
  The body of \<^verbatim>\<open>if name:\<close> computes three numbers and prints one line:
  \<^verbatim>\<open>
  pad   = "    " * indent
  total = sum(node.self_times)
  count = len(node.self_times)
  avg   = total/count if count else 0.0
  print(...)
  \<close>
\<close>

definition node_stats :: "node \<Rightarrow> py_error + (sample \<times> nat \<times> sample)" where
  "node_stats nd =
     (let total = py_sum (self_times nd);
          count = length (self_times nd)
      in case (if count \<noteq> 0 then truediv total count else Inr 0) of
           Inl e \<Rightarrow> Inl e
         | Inr avg \<Rightarrow> Inr (total, count, avg))"

definition node_line :: "node \<Rightarrow> string \<Rightarrow> nat \<Rightarrow> py_error + string" where
  "node_line nd name indent =
     (let pad = pad_of indent
      in case node_stats nd of
           Inl e \<Rightarrow> Inl e
         | Inr (tot, cnt, avg) \<Rightarrow> Inr (format_line pad name tot cnt avg))"

text \<open>
  \<^verbatim>\<open>
  def _print_exclusive(node, name="", indent=0):
      if name:
          ...
      for child_name, child in node.children.items():
          _print_exclusive(child, child_name, indent + 1)
  \<close>
  \<open>print_children\<close> is the \<^verbatim>\<open>for\<close> loop over the remaining items; \<open>indent\<close> is the
  indentation the children are printed with.
\<close>

fun print_exclusive :: "node \<Rightarrow> string \<Rightarrow> nat \<Rightarrow> py_error + string list"
  and print_children :: "(string \<times> node) list \<Rightarrow> nat \<Rightarrow> py_error + string list" where
  "print_exclusive (Node st ch) name indent =
     (case (if name \<noteq> [] then map_sum id (\<lambda>l. [l]) (node_line (Node st ch) name indent)
            else Inr []) of
        Inl e \<Rightarrow> Inl e
      | Inr own \<Rightarrow>
          (case print_children ch (indent + 1) of
             Inl e \<Rightarrow> Inl e
           | Inr below \<Rightarrow> Inr (own @ below)))"
| "print_children [] indent = Inr []"
| "print_children ((child_name, child) # rest) indent =
     (case print_exclusive child child_name indent of
        Inl e \<Rightarrow> Inl e
      | Inr first \<Rightarrow>
          (case print_children rest indent of
             Inl e \<Rightarrow> Inl e
           | Inr others \<Rightarrow> Inr (first @ others)))"

text \<open>\<^verbatim>\<open>print("\n=== timing summary ===")\<close>\<close>

definition header :: string where
  "header = CHR 0x0A # ''=== timing summary ===''"

text \<open>
  \<^verbatim>\<open>print_timing_summary\<close> reads the global \<^verbatim>\<open>all_times\<close>, builds the tree and prints;
  the result is the state after the call and the list of printed texts. The header is
  printed after the tree is built and before the nodes.
\<close>

definition print_timing_summary :: "world \<Rightarrow> py_error + (world \<times> string list)" where
  "print_timing_summary w =
     (let root_node = build_tree (all_times w)
      in case print_exclusive root_node [] 0 of
           Inl e \<Rightarrow> Inl e
         | Inr below \<Rightarrow> Inr (w, header # below))"

text \<open>Two calls of \<^verbatim>\<open>print_timing_summary()\<close> in a row, with nothing recorded in between.\<close>

definition report_twice :: "world \<Rightarrow> py_error + (world \<times> string list \<times> string list)" where
  "report_twice w =
     (case print_timing_summary w of
        Inl e \<Rightarrow> Inl e
      | Inr (w1, out1) \<Rightarrow>
          (case print_timing_summary w1 of
             Inl e \<Rightarrow> Inl e
           | Inr (w2, out2) \<Rightarrow> Inr (w2, out1, out2)))"

subsection \<open>The calls, with the recursion limit of the interpreter\<close>

text \<open>
  The definitions above give what a call of \<^verbatim>\<open>extend\<close>, \<^verbatim>\<open>_print_exclusive\<close> or
  \<^verbatim>\<open>print_timing_summary\<close> does when it returns. Python bounds the depth of nested calls
  (\<^verbatim>\<open>sys.getrecursionlimit()\<close>, 1000 unless changed) and raises \<^verbatim>\<open>RecursionError\<close> at a call
  beyond it; \<^verbatim>\<open>extend\<close> and \<^verbatim>\<open>_print_exclusive\<close> nest once for every segment of a name. In
  the definitions of this subsection \<open>depth\<close> is the number of nested calls of Python
  functions that the interpreter still allows where the call is made: a call with
  \<open>depth = 0\<close> raises, and the body of a call with \<open>Suc depth\<close> runs with \<open>depth\<close>. Built-in
  functions (\<^verbatim>\<open>print\<close>, \<^verbatim>\<open>sum\<close>, \<^verbatim>\<open>len\<close>, \<^verbatim>\<open>str.split\<close>) are not counted. How \<open>depth\<close>
  relates to the limit depends on the interpreter and on where the report is called; it
  is never more than the limit.

  \<^verbatim>\<open>self.children[k]\<close> creates a missing child with \<^verbatim>\<open>_Node()\<close>, whose \<^verbatim>\<open>__init__\<close> is one
  more call.
\<close>

fun modify_default_call ::
  "nat \<Rightarrow> (node \<Rightarrow> py_error + node) \<Rightarrow> string \<Rightarrow> (string \<times> node) list
     \<Rightarrow> py_error + (string \<times> node) list" where
  "modify_default_call depth f k [] =
     (if depth = 0 then Inl RecursionError
      else (case f (Node [] []) of Inl e \<Rightarrow> Inl e | Inr c \<Rightarrow> Inr [(k, c)]))"
| "modify_default_call depth f k ((k', c) # rest) =
     (if k' = k then (case f c of Inl e \<Rightarrow> Inl e | Inr c' \<Rightarrow> Inr ((k', c') # rest))
      else (case modify_default_call depth f k rest of
              Inl e \<Rightarrow> Inl e
            | Inr rest' \<Rightarrow> Inr ((k', c) # rest')))"

text \<open>A call of \<^verbatim>\<open>_Node.extend\<close>.\<close>

fun extend_call :: "nat \<Rightarrow> node \<Rightarrow> string list \<Rightarrow> sample list \<Rightarrow> py_error + node" where
  "extend_call 0 self parts vs = Inl RecursionError"
| "extend_call (Suc depth) self [] vs = Inr (Node (self_times self @ vs) (children self))"
| "extend_call (Suc depth) self (p # ps) vs =
     (case modify_default_call depth (\<lambda>child. extend_call depth child ps vs) p (children self) of
        Inl e \<Rightarrow> Inl e
      | Inr ch \<Rightarrow> Inr (Node (self_times self) ch))"

text \<open>
  The loop \<^verbatim>\<open>for fullname, lst in all_times.items(): root.extend(...)\<close>, inside a call that
  has \<open>depth\<close> nested calls left; an exception ends it.
\<close>

fun build_call :: "nat \<Rightarrow> node \<Rightarrow> recorder \<Rightarrow> py_error + node" where
  "build_call depth r [] = Inr r"
| "build_call depth r ((fullname, lst) # rest) =
     (case extend_call depth r (split fullname) lst of
        Inl e \<Rightarrow> Inl e
      | Inr r' \<Rightarrow> build_call depth r' rest)"

text \<open>
  A call of \<^verbatim>\<open>_print_exclusive\<close>: the texts printed, and the exception that ended the call,
  if any. What was printed before an exception stays printed.
\<close>

fun print_exclusive_call ::
    "nat \<Rightarrow> node \<Rightarrow> string \<Rightarrow> nat \<Rightarrow> string list \<times> py_error option"
  and print_children_call ::
    "nat \<Rightarrow> (string \<times> node) list \<Rightarrow> nat \<Rightarrow> string list \<times> py_error option" where
  "print_exclusive_call 0 nd name indent = ([], Some RecursionError)"
| "print_exclusive_call (Suc depth) nd name indent =
     (case (if name \<noteq> [] then map_sum id (\<lambda>l. [l]) (node_line nd name indent)
            else Inr []) of
        Inl e \<Rightarrow> ([], Some e)
      | Inr own \<Rightarrow>
          (case print_children_call depth (children nd) (indent + 1) of
             (below, exc) \<Rightarrow> (own @ below, exc)))"
| "print_children_call depth [] indent = ([], None)"
| "print_children_call depth ((child_name, child) # rest) indent =
     (case print_exclusive_call depth child child_name indent of
        (first, Some e) \<Rightarrow> (first, Some e)
      | (first, None) \<Rightarrow>
          (case print_children_call depth rest indent of
             (others, exc) \<Rightarrow> (first @ others, exc)))"

text \<open>
  A call of \<^verbatim>\<open>print_timing_summary\<close>: the state after it, the texts printed, and the
  exception that ended it, if any. The tree is built before the header is printed.
\<close>

fun print_timing_summary_call ::
  "nat \<Rightarrow> world \<Rightarrow> world \<times> string list \<times> py_error option" where
  "print_timing_summary_call 0 w = (w, [], Some RecursionError)"
| "print_timing_summary_call (Suc depth) w =
     (case build_call depth (Node [] []) (all_times w) of
        Inl e \<Rightarrow> (w, [], Some e)
      | Inr root_node \<Rightarrow>
          (case print_exclusive_call depth root_node [] 0 of
             (below, exc) \<Rightarrow> (w, header # below, exc)))"

subsection \<open>\<^verbatim>\<open>Timer\<close>\<close>

text \<open>\<^verbatim>\<open>torch.cuda.Event(enable_timing=True)\<close>\<close>

definition new_event :: "world \<Rightarrow> nat \<times> world" where
  "new_event w = (length (events w), w\<lparr>events := events w @ [None]\<rparr>)"

text \<open>\<^verbatim>\<open>event.record()\<close>\<close>

definition record_event :: "nat \<Rightarrow> world \<Rightarrow> world" where
  "record_event e w = w\<lparr>events := (events w)[e := Some (clock w)]\<rparr>"

text \<open>\<^verbatim>\<open>torch.cuda.synchronize()\<close>\<close>

definition synchronize :: "world \<Rightarrow> world" where
  "synchronize w = w\<lparr>syncs := Suc (syncs w)\<rparr>"

text \<open>\<^verbatim>\<open>a.elapsed_time(b)\<close> needs both events recorded.\<close>

definition elapsed_time :: "nat \<Rightarrow> nat \<Rightarrow> world \<Rightarrow> py_error + sample" where
  "elapsed_time a b w =
     (if a < length (events w) \<and> b < length (events w) then
        (case (events w ! a, events w ! b) of
           (Some ta, Some tb) \<Rightarrow> Inr (tb - ta)
         | _ \<Rightarrow> Inl RuntimeError)
      else Inl RuntimeError)"

text \<open>
  \<^verbatim>\<open>all_times[name].append(elapsed)\<close> on the \<^verbatim>\<open>defaultdict(list)\<close>: a missing name is
  stored at the end with an empty list first.
\<close>

fun append_sample :: "recorder \<Rightarrow> string \<Rightarrow> sample \<Rightarrow> recorder" where
  "append_sample [] k v = [(k, [v])]"
| "append_sample ((k', l) # rest) k v =
     (if k' = k then (k', l @ [v]) # rest else (k', l) # append_sample rest k v)"

text \<open>
  \<^verbatim>\<open>
  def __init__(self, name, enabled=True):
      self.name = name
      self.enabled = enabled
      if self.enabled:
          self.start = torch.cuda.Event(enable_timing=True)
          self.end = torch.cuda.Event(enable_timing=True)
  \<close>
\<close>

definition Timer_init :: "string \<Rightarrow> bool \<Rightarrow> world \<Rightarrow> timer \<times> world" where
  "Timer_init nm en w =
     (if en then
        (let (s, w1) = new_event w; (e, w2) = new_event w1
         in (\<lparr>timer_name = nm, timer_enabled = en, timer_start = Some s, timer_end = Some e\<rparr>, w2))
      else (\<lparr>timer_name = nm, timer_enabled = en, timer_start = None, timer_end = None\<rparr>, w))"

text \<open>
  \<^verbatim>\<open>
  def __enter__(self):
      if self.enabled:
          self.start.record()
  \<close>
\<close>

definition Timer_enter :: "timer \<Rightarrow> world \<Rightarrow> py_error + world" where
  "Timer_enter self w =
     (if timer_enabled self then
        (case timer_start self of
           None \<Rightarrow> Inl AttributeError
         | Some s \<Rightarrow> Inr (record_event s w))
      else Inr w)"

text \<open>
  \<^verbatim>\<open>
  def __exit__(self, type, value, traceback):
      global all_times
      if self.enabled:
          self.end.record()
          torch.cuda.synchronize()
          elapsed = self.start.elapsed_time(self.end)
          all_times[self.name].append(elapsed)
  \<close>
\<close>

definition Timer_exit :: "timer \<Rightarrow> world \<Rightarrow> py_error + world" where
  "Timer_exit self w =
     (if timer_enabled self then
        (case timer_end self of
           None \<Rightarrow> Inl AttributeError
         | Some e \<Rightarrow>
             (let w1 = synchronize (record_event e w)
              in case timer_start self of
                   None \<Rightarrow> Inl AttributeError
                 | Some s \<Rightarrow>
                     (case elapsed_time s e w1 of
                        Inl err \<Rightarrow> Inl err
                      | Inr elapsed \<Rightarrow>
                          Inr (w1\<lparr>all_times := append_sample (all_times w1) (timer_name self) elapsed\<rparr>))))
      else Inr w)"

text \<open>
  A begin/end pair, \<^verbatim>\<open>with Timer(name, enabled): body\<close>, around a body that ends
  normally: the timer is created, entered, the body runs, the timer is left.
\<close>

definition timed_scope ::
  "string \<Rightarrow> bool \<Rightarrow> (world \<Rightarrow> world) \<Rightarrow> world \<Rightarrow> py_error + (timer \<times> world)" where
  "timed_scope nm en body w =
     (let (t, w0) = Timer_init nm en w
      in case Timer_enter t w0 of
           Inl err \<Rightarrow> Inl err
         | Inr w1 \<Rightarrow>
             (case Timer_exit t (body w1) of
                Inl err \<Rightarrow> Inl err
              | Inr w2 \<Rightarrow> Inr (t, w2)))"

subsection \<open>Tree construction on a heap of list objects\<close>

text \<open>
  In the definitions above a list is a value. In Python the lists are objects: the values
  of \<^verbatim>\<open>all_times\<close> are references to list objects, a node's \<^verbatim>\<open>self_times\<close> is a reference to
  a list object, and \<^verbatim>\<open>list.extend\<close> changes its receiver in place. To see what
  \<^verbatim>\<open>print_timing_summary\<close> does to the lists of \<^verbatim>\<open>all_times\<close>, the tree construction is
  modelled a second time with the list objects in a store: a heap is the list of the list
  objects allocated so far, and the address of an object is its position. Node objects and
  the \<^verbatim>\<open>children\<close> dictionaries are reachable from the root only, so they stay values. The
  recursion limit plays no part in that question: as the first definition of \<^verbatim>\<open>extend\<close>,
  these say what the calls do when they return.
\<close>

type_synonym addr = nat

type_synonym heap = "sample list list"

datatype hnode = HNode (list_ref: addr) (hchildren: "(string \<times> hnode) list")

text \<open>\<^verbatim>\<open>_Node()\<close>: \<^verbatim>\<open>self.self_times = []\<close> allocates a new, empty list object.\<close>

definition new_node :: "heap \<Rightarrow> hnode \<times> heap" where
  "new_node h = (HNode (length h) [], h @ [[]])"

text \<open>
  \<^verbatim>\<open>a.extend(b)\<close> for the list objects at the addresses \<open>a\<close> and \<open>b\<close>: the elements of \<open>b\<close>
  are appended to the object \<open>a\<close>.
\<close>

definition list_extend :: "addr \<Rightarrow> addr \<Rightarrow> heap \<Rightarrow> heap" where
  "list_extend a b h = h[a := h ! a @ h ! b]"

text \<open>
  \<^verbatim>\<open>self.children[k]\<close> followed by the call \<open>f\<close> on the child, as \<open>modify_default\<close>, with the
  heap passed along: a missing child is allocated first.
\<close>

fun h_modify_default ::
  "(hnode \<Rightarrow> heap \<Rightarrow> hnode \<times> heap) \<Rightarrow> string \<Rightarrow> (string \<times> hnode) list \<Rightarrow> heap
     \<Rightarrow> (string \<times> hnode) list \<times> heap" where
  "h_modify_default f k [] h =
     (let (fresh, h1) = new_node h; (c', h') = f fresh h1 in ([(k, c')], h'))"
| "h_modify_default f k ((k', c) # rest) h =
     (if k' = k then (let (c', h') = f c h in ((k', c') # rest, h'))
      else (let (rest', h') = h_modify_default f k rest h in ((k', c) # rest', h')))"

text \<open>\<^verbatim>\<open>_Node.extend\<close>, where \<open>vals\<close> is the address of the list passed as \<^verbatim>\<open>values\<close>.\<close>

fun h_extend :: "hnode \<Rightarrow> string list \<Rightarrow> addr \<Rightarrow> heap \<Rightarrow> hnode \<times> heap" where
  "h_extend self [] vals h = (self, list_extend (list_ref self) vals h)"
| "h_extend self (p # ps) vals h =
     (let (ch', h') =
            h_modify_default (\<lambda>child hp. h_extend child ps vals hp) p (hchildren self) h
      in (HNode (list_ref self) ch', h'))"

text \<open>
  The first loop of \<^verbatim>\<open>print_timing_summary\<close>, over a dictionary from names to addresses of
  list objects.
\<close>

definition h_build_step :: "hnode \<times> heap \<Rightarrow> string \<times> addr \<Rightarrow> hnode \<times> heap" where
  "h_build_step rh item = h_extend (fst rh) (split (fst item)) (snd item) (snd rh)"

definition h_build_tree :: "(string \<times> addr) list \<Rightarrow> heap \<Rightarrow> hnode \<times> heap" where
  "h_build_tree items h = foldl h_build_step (new_node h) items"

subsection \<open>Observing the tree and the traversal\<close>

text \<open>
  The definitions of this subsection are not code of the module: they name what the
  properties below talk about. \<open>find_node root path\<close> is the node reached from \<open>root\<close>
  by following the segments of \<open>path\<close> through the \<^verbatim>\<open>children\<close> dictionaries.
\<close>

fun find_node :: "node \<Rightarrow> string list \<Rightarrow> node option" where
  "find_node nd [] = Some nd"
| "find_node nd (p # ps) =
     (case map_of (children nd) p of None \<Rightarrow> None | Some c \<Rightarrow> find_node c ps)"

definition has_node :: "node \<Rightarrow> string list \<Rightarrow> bool" where
  "has_node nd path = (find_node nd path \<noteq> None)"

definition samples_at :: "node \<Rightarrow> string list \<Rightarrow> sample list" where
  "samples_at nd path = (case find_node nd path of None \<Rightarrow> [] | Some m \<Rightarrow> self_times m)"

text \<open>The keys of every \<^verbatim>\<open>children\<close> dictionary of a tree are pairwise different.\<close>

fun keys_distinct :: "node \<Rightarrow> bool" where
  "keys_distinct (Node st ch) =
     (distinct (map fst ch) \<and> list_all (\<lambda>kc. keys_distinct (snd kc)) ch)"

text \<open>
  The calls of \<^verbatim>\<open>_print_exclusive\<close> in the order they happen, each with its \<open>indent\<close>,
  \<open>name\<close> and \<open>node\<close> arguments, and the line a call prints when its name is not empty.
\<close>

fun visit :: "node \<Rightarrow> string \<Rightarrow> nat \<Rightarrow> (nat \<times> string \<times> node) list"
  and visit_children :: "(string \<times> node) list \<Rightarrow> nat \<Rightarrow> (nat \<times> string \<times> node) list" where
  "visit (Node st ch) name indent = (indent, name, Node st ch) # visit_children ch (indent + 1)"
| "visit_children [] indent = []"
| "visit_children ((child_name, child) # rest) indent =
     visit child child_name indent @ visit_children rest indent"

definition line_of :: "nat \<Rightarrow> string \<Rightarrow> node \<Rightarrow> string" where
  "line_of indent name nd =
     format_line (pad_of indent) name (py_sum (self_times nd)) (length (self_times nd))
       (if self_times nd = [] then 0
        else round_double (py_sum (self_times nd) / round_double (real (length (self_times nd)))))"

definition printed :: "(nat \<times> string \<times> node) list \<Rightarrow> string list" where
  "printed calls =
     map (\<lambda>(indent, name, nd). line_of indent name nd)
       (filter (\<lambda>(indent, name, nd). name \<noteq> []) calls)"

text \<open>
  A tree and a dictionary on a heap, read as values: every reference is replaced by the
  content of its list object.
\<close>

fun read_node :: "heap \<Rightarrow> hnode \<Rightarrow> node"
  and read_children :: "heap \<Rightarrow> (string \<times> hnode) list \<Rightarrow> (string \<times> node) list" where
  "read_node h (HNode a ch) = Node (h ! a) (read_children h ch)"
| "read_children h [] = []"
| "read_children h ((k, c) # rest) = (k, read_node h c) # read_children h rest"

definition read_items :: "heap \<Rightarrow> (string \<times> addr) list \<Rightarrow> recorder" where
  "read_items h items = map (\<lambda>item. (fst item, h ! snd item)) items"

text \<open>
  The addresses of the list objects of a tree, and what makes them the tree's own: no two
  nodes share a list object, and each was allocated at or after the address \<open>b\<close>.
\<close>

fun refs :: "hnode \<Rightarrow> addr list"
  and refs_children :: "(string \<times> hnode) list \<Rightarrow> addr list" where
  "refs (HNode a ch) = a # refs_children ch"
| "refs_children [] = []"
| "refs_children ((k, c) # rest) = refs c @ refs_children rest"

definition owned :: "nat \<Rightarrow> heap \<Rightarrow> addr list \<Rightarrow> bool" where
  "owned b h rs = (distinct rs \<and> (\<forall>a \<in> set rs. b \<le> a \<and> a < length h))"

text \<open>
  The number of levels below a node, and the condition under which a call of
  \<^verbatim>\<open>print_timing_summary\<close> with \<open>depth\<close> nested calls left has room for every name: the
  call itself and the call of \<^verbatim>\<open>_print_exclusive\<close> on the root take two, and a name needs
  one more call than it has segments.
\<close>

fun height :: "node \<Rightarrow> nat"
  and height_children :: "(string \<times> node) list \<Rightarrow> nat" where
  "height (Node st ch) = height_children ch"
| "height_children [] = 0"
| "height_children ((k, c) # rest) = max (Suc (height c)) (height_children rest)"

definition fits :: "nat \<Rightarrow> recorder \<Rightarrow> bool" where
  "fits depth items =
     (2 \<le> depth \<and> list_all (\<lambda>item. Suc (length (split (fst item))) < depth) items)"

text \<open>\<^verbatim>\<open>".".join(parts)\<close>, the inverse of \<^verbatim>\<open>split\<close>.\<close>

fun join :: "string list \<Rightarrow> string" where
  "join [] = []"
| "join [p] = p"
| "join (p # q # ps) = p @ CHR ''.'' # join (q # ps)"

section \<open>Properties\<close>

subsection \<open>The tree after \<^verbatim>\<open>extend\<close>\<close>

lemma map_of_modify_default:
  "map_of (modify_default f k ch) k' =
     (if k' = k then Some (f (case map_of ch k of None \<Rightarrow> Node [] [] | Some c \<Rightarrow> c))
      else map_of ch k')"
  by (induction f k ch rule: modify_default.induct) auto

lemma samples_at_fresh: "samples_at (Node [] []) path = []"
  by (cases path) (simp_all add: samples_at_def)

lemma samples_at_Nil: "samples_at nd [] = self_times nd"
  by (simp add: samples_at_def)

lemma samples_at_Cons:
  "samples_at nd (q # qs) =
     (case map_of (children nd) q of None \<Rightarrow> [] | Some c \<Rightarrow> samples_at c qs)"
  by (simp add: samples_at_def split: option.split)

lemma samples_at_extend:
  "samples_at (extend nd parts vs) path = samples_at nd path @ (if path = parts then vs else [])"
proof (induction nd parts vs arbitrary: path rule: extend.induct)
  case (1 self vs)
  then show ?case by (cases path) (simp_all add: samples_at_Nil samples_at_Cons)
next
  case (2 self p ps vs)
  show ?case
  proof (cases path)
    case Nil
    then show ?thesis by (simp add: samples_at_Nil)
  next
    case (Cons q qs)
    then show ?thesis
      by (simp add: samples_at_Cons map_of_modify_default 2 samples_at_fresh split: option.split)
  qed
qed

lemma samples_at_foldl:
  "samples_at (foldl build_step nd s) path =
     samples_at nd path @ concat (map snd (filter (\<lambda>item. split (fst item) = path) s))"
  by (induction s arbitrary: nd) (auto simp: build_step_def samples_at_extend)

lemma samples_at_build:
  "samples_at (build_tree s) path =
     concat (map snd (filter (\<lambda>item. split (fst item) = path) s))"
  by (simp add: build_tree_def samples_at_foldl samples_at_fresh)

lemma find_node_fresh:
  "find_node (Node [] []) path = (if path = [] then Some (Node [] []) else None)"
  by (cases path) simp_all

lemma has_node_Nil: "has_node nd [] = True"
  by (simp add: has_node_def)

lemma has_node_Cons:
  "has_node nd (q # qs) =
     (case map_of (children nd) q of None \<Rightarrow> False | Some c \<Rightarrow> has_node c qs)"
  by (simp add: has_node_def split: option.split)

lemma has_node_fresh: "has_node (Node [] []) path = (path = [])"
  by (simp add: has_node_def find_node_fresh)

lemma has_node_extend:
  "has_node (extend nd parts vs) path = (has_node nd path \<or> prefix path parts)"
proof (induction nd parts vs arbitrary: path rule: extend.induct)
  case (1 self vs)
  then show ?case by (cases path) (simp_all add: has_node_Nil has_node_Cons)
next
  case (2 self p ps vs)
  show ?case
  proof (cases path)
    case Nil
    then show ?thesis by (simp add: has_node_Nil)
  next
    case (Cons q qs)
    then show ?thesis
      by (auto simp: has_node_Cons map_of_modify_default 2 has_node_fresh split: option.split)
  qed
qed

lemma has_node_foldl:
  "has_node (foldl build_step nd s) path =
     (has_node nd path \<or> (\<exists>item \<in> set s. prefix path (split (fst item))))"
  by (induction s arbitrary: nd) (auto simp: build_step_def has_node_extend)

lemma has_node_build:
  "has_node (build_tree s) path =
     (path = [] \<or> (\<exists>item \<in> set s. prefix path (split (fst item))))"
  by (simp add: build_tree_def has_node_foldl has_node_fresh)

lemma find_node_append:
  "find_node nd (p @ q) = (case find_node nd p of None \<Rightarrow> None | Some m \<Rightarrow> find_node m q)"
  by (induction p arbitrary: nd) (simp_all split: option.split)

lemma find_node_samples: "find_node nd path = Some m \<Longrightarrow> samples_at nd path = self_times m"
  by (simp add: samples_at_def)

text \<open>A node below another one is a smaller tree, so it is not that node.\<close>

lemma child_smaller: "(k, c) \<in> set ch \<Longrightarrow> size c < size (Node st ch)"
  by (induction ch) auto

lemma find_node_smaller:
  "find_node nd path = Some d \<Longrightarrow> path \<noteq> [] \<Longrightarrow> size d < size nd"
proof (induction path arbitrary: nd)
  case Nil
  then show ?case by simp
next
  case (Cons p ps)
  then obtain c where c: "map_of (children nd) p = Some c" "find_node c ps = Some d"
    by (auto split: option.splits)
  then have "(p, c) \<in> set (children nd)" by (simp add: map_of_SomeD)
  then have lt: "size c < size nd"
    using child_smaller [of p c "children nd" "self_times nd"] by simp
  show ?case
  proof (cases "ps = []")
    case True
    then show ?thesis using c lt by simp
  next
    case False
    then have "size d < size c" using Cons.IH [OF c(2)] by simp
    then show ?thesis using lt by simp
  qed
qed

subsection \<open>Rounding to binary64\<close>

lemma round_half_even_int: "round_half_even (of_int n) = n"
  by (simp add: round_half_even_def)

text \<open>An integer below \<open>2 ^ 53\<close> in absolute value is a binary64 number.\<close>

lemma round_double_int:
  assumes "\<bar>n\<bar> < 2 ^ 53"
  shows "round_double (of_int n) = of_int n"
proof (cases "n = 0")
  case True
  then show ?thesis by (simp add: round_double_def)
next
  case False
  then have pos: "0 < \<bar>n\<bar>" by simp
  have one: "1 \<le> \<bar>real_of_int n\<bar>" using False by (simp flip: of_int_abs)
  have b: "binade (of_int n) = bitlen \<bar>n\<bar> - 1"
    using one by (simp add: binade_def flip: of_int_abs)
  have lo: "1 \<le> bitlen \<bar>n\<bar>"
    using pos bitlen_eq_zero_iff [of "\<bar>n\<bar>"] bitlen_nonneg [of "\<bar>n\<bar>"] by linarith
  have hi: "bitlen \<bar>n\<bar> \<le> 53" using assms by (simp add: bitlen_le_iff_power)
  define k where "k = nat (53 - bitlen \<bar>n\<bar>)"
  have q: "max (binade (of_int n)) (- 1022) - 52 = - int k"
    using b lo hi by (simp add: k_def)
  have "\<bar>real_of_int n\<bar> / 2 powi (- int k) = of_int (\<bar>n\<bar> * 2 ^ k)"
    by (simp add: power_int_minus field_simps)
  then have m: "round_half_even (\<bar>real_of_int n\<bar> / 2 powi (- int k)) = \<bar>n\<bar> * 2 ^ k"
    by (simp only: round_half_even_int)
  have "round_double (of_int n)
      = sgn (real_of_int n) * of_int (\<bar>n\<bar> * 2 ^ k) * 2 powi (- int k)"
    using False by (simp add: round_double_def q m Let_def)
  also have "\<dots> = sgn (real_of_int n) * \<bar>real_of_int n\<bar>"
    by (simp add: power_int_minus field_simps)
  also have "\<dots> = of_int n" by (simp add: sgn_mult_abs)
  finally show ?thesis .
qed

lemma round_double_0: "round_double 0 = 0"
  by (simp add: round_double_def)

lemma round_double_1: "round_double 1 = 1"
  using round_double_int [of 1] by simp

lemma round_double_numeral:
  "(numeral k :: int) < 2 ^ 53 \<Longrightarrow> round_double (numeral k) = numeral k"
  using round_double_int [of "numeral k"] by simp

lemma round_double_of_nat: "n < 2 ^ 53 \<Longrightarrow> round_double (real n) = real n"
  using round_double_int [of "int n"] by simp

lemma py_sum_Nil: "py_sum [] = 0"
  by (simp add: py_sum_def)

lemmas float_eval = round_double_0 round_double_1 round_double_numeral

text \<open>
  Evaluating the rounding on numerals, and two lines where it shows: \<open>10\<^sup>1\<^sup>6 + 1\<close> is not a
  binary64 number and the sum is \<open>10\<^sup>1\<^sup>6\<close>; the quotient of \<open>0.125\<close> by \<open>5\<close> is the binary64
  number next to \<open>0.025\<close>, which lies above it and is printed as \<^verbatim>\<open>0.03\<close>, where \<open>0.025\<close>
  itself would be printed as \<^verbatim>\<open>0.02\<close>.
\<close>

lemma bitlen_numeral: "bitlen (numeral k) = bitlen (numeral k div 2) + 1"
  by (subst compute_bitlen) simp

lemma bitlen_1: "bitlen 1 = 1"
  by (subst compute_bitlen) simp

lemmas round_eval = round_double_def binade_def round_half_even_def Let_def
  bitlen_numeral bitlen_1 power_int_minus

lemma py_sum_rounds: "py_sum [10000000000000000, 1] = 10000000000000000"
  by (simp add: py_sum_def float_eval) (simp add: round_eval)

lemma truediv_rounds: "truediv (1 / 8) 5 = Inr (7205759403792794 / 2 ^ 58)"
  by (simp add: truediv_def float_eval) (simp add: round_eval)

lemma py_sum_eighth: "py_sum [1 / 8, 0, 0, 0, 0] = 1 / 8"
  by (simp add: py_sum_def) (simp add: round_eval)

subsection \<open>The lines \<^verbatim>\<open>_print_exclusive\<close> prints\<close>

lemma node_stats_eq:
  "node_stats nd = Inr (py_sum (self_times nd), length (self_times nd),
     if self_times nd = [] then 0
     else round_double (py_sum (self_times nd) / round_double (real (length (self_times nd)))))"
  by (simp add: node_stats_def truediv_def Let_def)

lemma node_line_eq: "node_line nd name indent = Inr (line_of indent name nd)"
  by (simp add: node_line_def node_stats_eq line_of_def)

lemma printed_append: "printed (xs @ ys) = printed xs @ printed ys"
  by (simp add: printed_def)

lemma print_visit:
  "print_exclusive nd name indent = Inr (printed (visit nd name indent))"
  "print_children ch indent = Inr (printed (visit_children ch indent))"
proof (induction nd name indent and ch indent rule: print_exclusive_print_children.induct)
  case (1 st ch name indent)
  then show ?case by (simp add: node_line_eq printed_def)
next
  case (2 indent)
  then show ?case by (simp add: printed_def)
next
  case (3 child_name child rest indent)
  then show ?case by (simp add: printed_append)
qed

lemma visit_head: "(indent, name, nd) \<in> set (visit nd name indent)"
  by (cases nd) simp

lemma visit_child_subset:
  "(k, c) \<in> set ch \<Longrightarrow> set (visit c k indent) \<subseteq> set (visit_children ch indent)"
  by (induction ch) auto

lemma visit_below:
  "set (visit_children (children nd) (Suc indent)) \<subseteq> set (visit nd name indent)"
  by (cases nd) auto

lemma find_node_visited:
  "find_node nd (p # ps) = Some m \<Longrightarrow>
     (indent + length ps, last (p # ps), m) \<in> set (visit_children (children nd) indent)"
proof (induction ps arbitrary: nd p indent)
  case Nil
  then obtain c where c: "map_of (children nd) p = Some c" "m = c"
    by (auto split: option.splits)
  then have "(p, c) \<in> set (children nd)" by (simp add: map_of_SomeD)
  then show ?case using visit_child_subset visit_head c by fastforce
next
  case (Cons q qs)
  then obtain c where c: "map_of (children nd) p = Some c" "find_node c (q # qs) = Some m"
    by (auto split: option.splits)
  then have in_ch: "(p, c) \<in> set (children nd)" by (simp add: map_of_SomeD)
  have "(Suc indent + length qs, last (q # qs), m)
          \<in> set (visit_children (children c) (Suc indent))"
    using Cons.IH [OF c(2)] .
  then have "(Suc indent + length qs, last (q # qs), m) \<in> set (visit c p indent)"
    using visit_below by blast
  then have "(Suc indent + length qs, last (q # qs), m)
          \<in> set (visit_children (children nd) indent)"
    using visit_child_subset [OF in_ch] by blast
  then show ?case by simp
qed

lemma node_stats_count: "\<exists>tot avg. node_stats nd = Inr (tot, length (self_times nd), avg)"
  by (simp add: node_stats_eq)

lemma print_timing_summary_eq:
  "print_timing_summary w =
     Inr (w, header # printed (visit_children (children (build_tree (all_times w))) 1))"
  by (cases "build_tree (all_times w)") (simp add: print_timing_summary_def print_visit printed_def)

subsection \<open>\<^verbatim>\<open>split\<close> and \<^verbatim>\<open>join\<close>\<close>

lemma split_from_not_Nil: "split_from sep cur s \<noteq> []"
  by (induction s arbitrary: cur) auto

lemma split_not_Nil: "split nm \<noteq> []"
  by (simp add: split_def split_from_not_Nil)

lemma split_from_single:
  "(split_from sep cur s = [x]) = (sep \<notin> set s \<and> x = cur @ s)"
  by (induction s arbitrary: cur) (auto simp: split_from_not_Nil)

lemma split_single_empty: "(split nm = [[]]) = (nm = [])"
  using split_from_single [of "CHR ''.''" "[]" nm "[]"] by (auto simp: split_def)

lemma join_Cons: "ps \<noteq> [] \<Longrightarrow> join (p # ps) = p @ CHR ''.'' # join ps"
  by (cases ps) simp_all

lemma join_split_from: "join (split_from (CHR ''.'') cur s) = cur @ s"
  by (induction s arbitrary: cur) (simp_all add: join_Cons split_from_not_Nil)

lemma join_split: "join (split nm) = nm"
  by (simp add: split_def join_split_from)

lemma split_inject: "(split a = split b) = (a = b)"
  by (metis join_split)




subsection \<open>Dictionaries with unique keys\<close>

lemma filter_key_absent:
  "k \<notin> fst ` set s \<Longrightarrow> filter (\<lambda>item. fst item = k) s = []"
  by (induction s) auto

lemma filter_key_distinct:
  "distinct (map fst s) \<Longrightarrow> map_of s k = Some vs \<Longrightarrow>
     filter (\<lambda>item. fst item = k) s = [(k, vs)]"
  by (induction s) (auto simp: filter_key_absent split: if_splits)

lemma root_self_times: "self_times (build_tree s) = []"
  using samples_at_build [of s "[]"] by (simp add: samples_at_Nil split_not_Nil)

subsection \<open>The keys of the \<^verbatim>\<open>children\<close> dictionaries\<close>

lemma keys_modify_default:
  "map fst (modify_default f k ch)
     = (if k \<in> set (map fst ch) then map fst ch else map fst ch @ [k])"
  by (induction f k ch rule: modify_default.induct) auto

lemma list_all_modify_default:
  "list_all P ch \<Longrightarrow> (\<And>c. P (k, c) \<Longrightarrow> P (k, f c)) \<Longrightarrow> P (k, f (Node [] []))
     \<Longrightarrow> list_all P (modify_default f k ch)"
  by (induction f k ch rule: modify_default.induct) auto

lemma keys_distinct_extend: "keys_distinct nd \<Longrightarrow> keys_distinct (extend nd parts vs)"
proof (induction nd parts vs rule: extend.induct)
  case (1 self vs)
  then show ?case by (cases self) simp
next
  case (2 self p ps vs)
  obtain st ch where self: "self = Node st ch" by (cases self)
  have fresh: "keys_distinct (Node [] [])" by simp
  have "list_all (\<lambda>kc. keys_distinct (snd kc)) (modify_default (\<lambda>child. extend child ps vs) p ch)"
    using "2.prems" self
    by (intro list_all_modify_default) (simp_all add: "2.IH" fresh)
  moreover have "distinct (map fst (modify_default (\<lambda>child. extend child ps vs) p ch))"
    using "2.prems" self by (simp add: keys_modify_default)
  ultimately show ?case using self by simp
qed

lemma keys_distinct_foldl: "keys_distinct nd \<Longrightarrow> keys_distinct (foldl build_step nd s)"
  by (induction s arbitrary: nd) (simp_all add: build_step_def keys_distinct_extend)

lemma keys_distinct_build: "keys_distinct (build_tree s)"
  by (simp add: build_tree_def keys_distinct_foldl)

lemma keys_distinct_child:
  "keys_distinct nd \<Longrightarrow> map_of (children nd) k = Some c \<Longrightarrow> keys_distinct c"
  by (cases nd) (auto simp: list_all_iff dest: map_of_SomeD)

lemma keys_distinct_find:
  "keys_distinct nd \<Longrightarrow> find_node nd path = Some m \<Longrightarrow> keys_distinct m"
  by (induction path arbitrary: nd) (auto split: option.splits dest: keys_distinct_child)

lemma keys_distinct_children: "keys_distinct nd \<Longrightarrow> distinct (map fst (children nd))"
  by (cases nd) simp

lemma only_child_named:
  assumes "keys_distinct nd" and "map_of (children nd) k = Some c"
  shows "filter (\<lambda>kc. fst kc = k) (children nd) = [(k, c)]"
  using filter_key_distinct [OF keys_distinct_children [OF assms(1)] assms(2)] .

lemma samples_at_name:
  assumes "distinct (map fst s)" and "map_of s nm = Some vs"
  shows "samples_at (build_tree s) (split nm) = vs"
proof -
  have "filter (\<lambda>item. split (fst item) = split nm) s = filter (\<lambda>item. fst item = nm) s"
    by (simp add: split_inject)
  then show ?thesis
    by (simp add: samples_at_build filter_key_distinct [OF assms])
qed

lemma has_node_name: "(nm, vs) \<in> set s \<Longrightarrow> has_node (build_tree s) (split nm)"
  unfolding has_node_build by force

subsection \<open>The heap-level construction refines the one on values\<close>

lemma read_frame:
  "(\<forall>a \<in> set (refs c). h' ! a = h ! a) \<Longrightarrow> read_node h' c = read_node h c"
  "(\<forall>a \<in> set (refs_children ch). h' ! a = h ! a) \<Longrightarrow> read_children h' ch = read_children h ch"
  by (induction c and ch rule: refs_refs_children.induct) simp_all

lemma owned_append:
  "owned b h (xs @ ys) = (owned b h xs \<and> owned b h ys \<and> set xs \<inter> set ys = {})"
  by (auto simp: owned_def)

lemma owned_mono: "owned b h rs \<Longrightarrow> length h \<le> length h' \<Longrightarrow> owned b h' rs"
  by (auto simp: owned_def)

lemma h_modify_default_ok:
  assumes f: "\<And>c h c' h'. \<lbrakk>b \<le> length h; owned b h (refs c); h ! vals = vs; f c h = (c', h')\<rbrakk>
      \<Longrightarrow> length h \<le> length h'
        \<and> (\<forall>a < length h. a \<notin> set (refs c) \<longrightarrow> h' ! a = h ! a)
        \<and> distinct (refs c')
        \<and> set (refs c') \<subseteq> set (refs c) \<union> {length h ..< length h'}
        \<and> read_node h' c' = g (read_node h c)"
    and "vals < b" and "b \<le> length h" and "owned b h (refs_children ch)" and "h ! vals = vs"
    and "h_modify_default f k ch h = (ch', h')"
  shows "length h \<le> length h'
        \<and> (\<forall>a < length h. a \<notin> set (refs_children ch) \<longrightarrow> h' ! a = h ! a)
        \<and> distinct (refs_children ch')
        \<and> set (refs_children ch') \<subseteq> set (refs_children ch) \<union> {length h ..< length h'}
        \<and> read_children h' ch' = modify_default g k (read_children h ch)"
  using assms(4,6)
proof (induction ch arbitrary: ch' h')
  case Nil
  let ?h1 = "h @ [[]]"
  obtain c' where c': "f (HNode (length h) []) ?h1 = (c', h')" and ch': "ch' = [(k, c')]"
    using Nil.prems(2) by (auto simp: new_node_def split: prod.splits)
  have "owned b ?h1 (refs (HNode (length h) []))"
    using assms(3) by (simp add: owned_def)
  moreover have "?h1 ! vals = vs" using assms(2,3,5) by (simp add: nth_append)
  moreover have "b \<le> length ?h1" using assms(3) by simp
  ultimately have r: "length ?h1 \<le> length h'
        \<and> (\<forall>a < length ?h1. a \<notin> set (refs (HNode (length h) [])) \<longrightarrow> h' ! a = ?h1 ! a)
        \<and> distinct (refs c')
        \<and> set (refs c') \<subseteq> set (refs (HNode (length h) [])) \<union> {length ?h1 ..< length h'}
        \<and> read_node h' c' = g (read_node ?h1 (HNode (length h) []))"
    using f [OF _ _ _ c'] by blast
  have "\<forall>a < length h. h' ! a = h ! a"
    using r by (auto simp: nth_append)
  moreover have "set (refs c') \<subseteq> {length h ..< length h'}"
    using r by auto
  moreover have "read_node ?h1 (HNode (length h) []) = Node [] []" by simp
  ultimately show ?case using r ch' by auto
next
  case (Cons kc rest)
  obtain k' c where kc: "kc = (k', c)" by (cases kc)
  have own_c: "owned b h (refs c)" and own_rest: "owned b h (refs_children rest)"
    and disj: "set (refs c) \<inter> set (refs_children rest) = {}"
    using Cons.prems(1) kc by (simp_all add: owned_append)
  show ?case
  proof (cases "k' = k")
    case True
    obtain c' where c': "f c h = (c', h')" and ch': "ch' = (k', c') # rest"
      using Cons.prems(2) kc True by (auto split: prod.splits)
    have r: "length h \<le> length h'
        \<and> (\<forall>a < length h. a \<notin> set (refs c) \<longrightarrow> h' ! a = h ! a)
        \<and> distinct (refs c')
        \<and> set (refs c') \<subseteq> set (refs c) \<union> {length h ..< length h'}
        \<and> read_node h' c' = g (read_node h c)"
      using f [OF assms(3) own_c assms(5) c'] .
    have rest_lt: "\<forall>a \<in> set (refs_children rest). a < length h"
      using own_rest by (simp add: owned_def)
    have "\<forall>a \<in> set (refs_children rest). h' ! a = h ! a"
      using r rest_lt disj by auto
    then have read_rest: "read_children h' rest = read_children h rest"
      by (rule read_frame)
    have "set (refs c') \<inter> set (refs_children rest) = {}"
      using r rest_lt disj by fastforce
    moreover have "distinct (refs_children rest)" using own_rest by (simp add: owned_def)
    ultimately have "distinct (refs_children ch')" using r ch' by simp
    moreover have "set (refs_children ch') \<subseteq> set (refs_children (kc # rest)) \<union> {length h ..< length h'}"
      using r ch' kc by auto
    moreover have "read_children h' ch' = modify_default g k (read_children h (kc # rest))"
      using r ch' kc True read_rest by simp
    moreover have "\<forall>a < length h. a \<notin> set (refs_children (kc # rest)) \<longrightarrow> h' ! a = h ! a"
      using r kc by simp
    ultimately show ?thesis using r by blast
  next
    case False
    obtain rest' where rest': "h_modify_default f k rest h = (rest', h')"
        and ch': "ch' = (k', c) # rest'"
      using Cons.prems(2) kc False by (auto split: prod.splits)
    have r: "length h \<le> length h'
        \<and> (\<forall>a < length h. a \<notin> set (refs_children rest) \<longrightarrow> h' ! a = h ! a)
        \<and> distinct (refs_children rest')
        \<and> set (refs_children rest') \<subseteq> set (refs_children rest) \<union> {length h ..< length h'}
        \<and> read_children h' rest' = modify_default g k (read_children h rest)"
      using Cons.IH [OF own_rest rest'] .
    have c_lt: "\<forall>a \<in> set (refs c). a < length h"
      using own_c by (simp add: owned_def)
    have "\<forall>a \<in> set (refs c). h' ! a = h ! a"
      using r c_lt disj by auto
    then have read_c: "read_node h' c = read_node h c"
      by (rule read_frame)
    have "set (refs c) \<inter> set (refs_children rest') = {}"
      using r c_lt disj by fastforce
    moreover have "distinct (refs c)" using own_c by (simp add: owned_def)
    ultimately have "distinct (refs_children ch')" using r ch' by simp
    moreover have "set (refs_children ch') \<subseteq> set (refs_children (kc # rest)) \<union> {length h ..< length h'}"
      using r ch' kc by auto
    moreover have "read_children h' ch' = modify_default g k (read_children h (kc # rest))"
      using r ch' kc False read_c by simp
    moreover have "\<forall>a < length h. a \<notin> set (refs_children (kc # rest)) \<longrightarrow> h' ! a = h ! a"
      using r kc by simp
    ultimately show ?thesis using r by blast
  qed
qed

lemma h_extend_ok:
  assumes "vals < b" and "b \<le> length h" and "owned b h (refs c)" and "h ! vals = vs"
    and "h_extend c parts vals h = (c', h')"
  shows "length h \<le> length h'
        \<and> (\<forall>a < length h. a \<notin> set (refs c) \<longrightarrow> h' ! a = h ! a)
        \<and> distinct (refs c')
        \<and> set (refs c') \<subseteq> set (refs c) \<union> {length h ..< length h'}
        \<and> read_node h' c' = extend (read_node h c) parts vs"
  using assms(2-5)
proof (induction parts arbitrary: c h c' h')
  case Nil
  obtain a ch where c: "c = HNode a ch" by (cases c)
  have h': "h' = h[a := h ! a @ h ! vals]" and c': "c' = c"
    using Nil.prems(4) c by (simp_all add: list_extend_def)
  have a: "b \<le> a" "a < length h" "a \<notin> set (refs_children ch)" "distinct (refs_children ch)"
    using Nil.prems(2) c by (auto simp: owned_def)
  have "\<forall>x \<in> set (refs_children ch). h' ! x = h ! x"
    using a(3) h' by (metis nth_list_update_neq)
  then have "read_children h' ch = read_children h ch" by (rule read_frame)
  moreover have "h' ! a = h ! a @ vs" using a h' Nil.prems(3) by simp
  ultimately have "read_node h' c' = extend (read_node h c) [] vs"
    using c c' by simp
  moreover have "\<forall>x < length h. x \<notin> set (refs c) \<longrightarrow> h' ! x = h ! x"
    using c h' by auto
  moreover have "distinct (refs c')" using Nil.prems(2) c' by (simp add: owned_def)
  ultimately show ?case using h' c' by simp
next
  case (Cons p ps)
  obtain a ch where c: "c = HNode a ch" by (cases c)
  obtain ch' where ch': "h_modify_default (\<lambda>child hp. h_extend child ps vals hp) p ch h = (ch', h')"
      and c': "c' = HNode a ch'"
    using Cons.prems(4) c by (auto split: prod.splits)
  have a: "b \<le> a" "a < length h" "a \<notin> set (refs_children ch)"
    and own_ch: "owned b h (refs_children ch)"
    using Cons.prems(2) c by (auto simp: owned_def)
  have r: "length h \<le> length h'
        \<and> (\<forall>a < length h. a \<notin> set (refs_children ch) \<longrightarrow> h' ! a = h ! a)
        \<and> distinct (refs_children ch')
        \<and> set (refs_children ch') \<subseteq> set (refs_children ch) \<union> {length h ..< length h'}
        \<and> read_children h' ch' = modify_default (\<lambda>child. extend child ps vs) p (read_children h ch)"
    by (rule h_modify_default_ok [where f = "\<lambda>child hp. h_extend child ps vals hp" and b = b
          and vals = vals and vs = vs, OF _ assms(1) Cons.prems(1) own_ch Cons.prems(3) ch'])
       (rule Cons.IH)
  have "h' ! a = h ! a" using r a by simp
  then have "read_node h' c' = extend (read_node h c) (p # ps) vs"
    using r c c' by simp
  moreover have "a \<notin> set (refs_children ch')" using r a by auto
  then have "distinct (refs c')" using r c' by simp
  moreover have "set (refs c') \<subseteq> set (refs c) \<union> {length h ..< length h'}"
    using r c c' by auto
  moreover have "\<forall>x < length h. x \<notin> set (refs c) \<longrightarrow> h' ! x = h ! x"
    using r c by simp
  ultimately show ?case using r by blast
qed

lemma read_items_frame:
  "(\<forall>item \<in> set items. h' ! snd item = h ! snd item) \<Longrightarrow> read_items h' items = read_items h items"
  by (simp add: read_items_def)

lemma h_build_step_pair:
  "h_build_step (r, h) item = h_extend r (split (fst item)) (snd item) h"
  by (simp add: h_build_step_def)

lemma h_build_foldl:
  assumes "\<forall>item \<in> set items. snd item < b"
    and "b \<le> length h" and "owned b h (refs r)"
    and "foldl h_build_step (r, h) items = (r', h')"
  shows "length h \<le> length h'
        \<and> (\<forall>a < length h. a \<notin> set (refs r) \<longrightarrow> h' ! a = h ! a)
        \<and> read_node h' r' = foldl build_step (read_node h r) (read_items h items)"
  using assms
proof (induction items arbitrary: r h)
  case Nil
  then show ?case by (simp add: read_items_def)
next
  case (Cons item items)
  obtain r1 h1 where step: "h_extend r (split (fst item)) (snd item) h = (r1, h1)"
    by (cases "h_extend r (split (fst item)) (snd item) h")
  have lt: "snd item < b" using Cons.prems(1) by simp
  have ok: "length h \<le> length h1
        \<and> (\<forall>a < length h. a \<notin> set (refs r) \<longrightarrow> h1 ! a = h ! a)
        \<and> distinct (refs r1)
        \<and> set (refs r1) \<subseteq> set (refs r) \<union> {length h ..< length h1}
        \<and> read_node h1 r1 = extend (read_node h r) (split (fst item)) (h ! snd item)"
    using h_extend_ok [OF lt Cons.prems(2,3) refl step] .
  have own1: "owned b h1 (refs r1)"
    using ok Cons.prems(2,3) by (fastforce simp: owned_def)
  have rest: "foldl h_build_step (r1, h1) items = (r', h')"
    using Cons.prems(4) step by (simp add: h_build_step_pair)
  have ih: "length h1 \<le> length h'
        \<and> (\<forall>a < length h1. a \<notin> set (refs r1) \<longrightarrow> h' ! a = h1 ! a)
        \<and> read_node h' r' = foldl build_step (read_node h1 r1) (read_items h1 items)"
    using Cons.IH [OF _ _ own1 rest] Cons.prems(1,2) ok by simp
  have low: "h1 ! a = h ! a" if "a < b" for a
  proof -
    have "a \<notin> set (refs r)" using that Cons.prems(3) by (auto simp: owned_def)
    then show ?thesis using ok that Cons.prems(2) by simp
  qed
  have ri: "read_items h1 items = read_items h items"
    using Cons.prems(1) low by (intro read_items_frame) simp
  have "read_items h (item # items) = (fst item, h ! snd item) # read_items h items"
    by (simp add: read_items_def)
  then have "read_node h' r' = foldl build_step (read_node h r) (read_items h (item # items))"
    using ih ok ri by (simp add: build_step_def)
  moreover have "h' ! a = h ! a" if "a < length h" "a \<notin> set (refs r)" for a
  proof -
    have "a \<notin> set (refs r1)" using ok that by auto
    then have "h' ! a = h1 ! a" using ih ok that by simp
    then show ?thesis using ok that by simp
  qed
  ultimately show ?case using ih ok by simp
qed

lemma h_build_tree_ok:
  assumes "\<forall>item \<in> set items. snd item < length h"
  shows "take (length h) (snd (h_build_tree items h)) = h
    \<and> read_node (snd (h_build_tree items h)) (fst (h_build_tree items h))
        = build_tree (read_items h items)"
proof -
  let ?h1 = "h @ [[]]"
  let ?r = "HNode (length h) []"
  obtain r' h' where res: "foldl h_build_step (?r, ?h1) items = (r', h')"
    by (cases "foldl h_build_step (?r, ?h1) items")
  have own: "owned (length h) ?h1 (refs ?r)" by (simp add: owned_def)
  have ok: "length ?h1 \<le> length h'
        \<and> (\<forall>a < length ?h1. a \<notin> set (refs ?r) \<longrightarrow> h' ! a = ?h1 ! a)
        \<and> read_node h' r' = foldl build_step (read_node ?h1 ?r) (read_items ?h1 items)"
    using h_build_foldl [OF assms _ own res] by simp
  have same: "h' ! a = h ! a" if "a < length h" for a
    using ok that by (simp add: nth_append)
  have "take (length h) h' = h"
    using ok same by (intro nth_equalityI) simp_all
  moreover have "read_items ?h1 items = read_items h items"
    using assms by (intro read_items_frame) (simp add: nth_append)
  then have "read_node h' r' = build_tree (read_items h items)"
    using ok by (simp add: build_tree_def)
  ultimately show ?thesis
    using res by (simp add: h_build_tree_def new_node_def)
qed

subsection \<open>The calls return the values above, or raise \<^verbatim>\<open>RecursionError\<close>\<close>

lemma modify_default_call_eq:
  assumes "\<And>c. f c = (if ok then Inr (g c) else Inl RecursionError)" and "ok \<Longrightarrow> depth \<noteq> 0"
  shows "modify_default_call depth f k ch
     = (if ok then Inr (modify_default g k ch) else Inl RecursionError)"
  using assms by (induction g k ch rule: modify_default.induct) auto

lemma extend_call_eq:
  "extend_call depth nd parts vs
     = (if length parts < depth then Inr (extend nd parts vs) else Inl RecursionError)"
proof (induction depth arbitrary: nd parts)
  case 0
  then show ?case by simp
next
  case (Suc depth)
  show ?case
  proof (cases parts)
    case Nil
    then show ?thesis by simp
  next
    case (Cons p ps)
    have "modify_default_call depth (\<lambda>child. extend_call depth child ps vs) p (children nd)
        = (if length ps < depth
           then Inr (modify_default (\<lambda>child. extend child ps vs) p (children nd))
           else Inl RecursionError)"
      by (rule modify_default_call_eq) (simp_all add: Suc.IH)
    then show ?thesis using Cons by simp
  qed
qed

lemma build_step_pair: "build_step r (fullname, lst) = extend r (split fullname) lst"
  by (simp add: build_step_def)

lemma build_call_eq:
  "build_call depth r items
     = (if list_all (\<lambda>item. length (split (fst item)) < depth) items
        then Inr (foldl build_step r items) else Inl RecursionError)"
  by (induction depth r items rule: build_call.induct)
     (simp_all add: extend_call_eq build_step_pair)

lemma height_modify_default:
  assumes "\<And>c. height (g c) \<le> max (height c) n"
  shows "height_children (modify_default g k ch) \<le> max (height_children ch) (Suc n)"
  using assms
proof (induction g k ch rule: modify_default.induct)
  case (1 f k)
  then show ?case using "1.prems" [of "Node [] []"] by simp
next
  case (2 f k k' c rest)
  show ?case
  proof (cases "k' = k")
    case True
    have "height (f c) \<le> max (height c) n" by (rule "2.prems")
    then show ?thesis using True by simp linarith
  next
    case False
    have "height_children (modify_default f k rest) \<le> max (height_children rest) (Suc n)"
      using False "2.IH" "2.prems" by simp
    then show ?thesis using False by simp linarith
  qed
qed

lemma height_extend: "height (extend nd parts vs) \<le> max (height nd) (length parts)"
proof (induction nd parts vs rule: extend.induct)
  case (1 self vs)
  then show ?case by (cases self) simp
next
  case (2 self p ps vs)
  have "height_children (modify_default (\<lambda>child. extend child ps vs) p (children self))
      \<le> max (height_children (children self)) (Suc (length ps))"
    by (rule height_modify_default) (rule 2)
  then show ?case by (cases self) simp
qed

lemma height_foldl:
  "list_all (\<lambda>item. length (split (fst item)) \<le> n) items \<Longrightarrow> height r \<le> n
     \<Longrightarrow> height (foldl build_step r items) \<le> n"
proof (induction items arbitrary: r)
  case Nil
  then show ?case by simp
next
  case (Cons item items)
  have "max (height r) (length (split (fst item))) \<le> n"
    using Cons.prems by simp
  then have "height (build_step r item) \<le> n"
    using height_extend [of r "split (fst item)" "snd item"]
    unfolding build_step_def by (rule order_trans [rotated])
  then show ?case using Cons by simp
qed

lemma print_call_eq:
  "height nd < depth \<Longrightarrow>
     print_exclusive_call depth nd name indent = (printed (visit nd name indent), None)"
  "height_children ch \<le> depth \<Longrightarrow>
     print_children_call depth ch indent = (printed (visit_children ch indent), None)"
proof (induction depth nd name indent and depth ch indent
    rule: print_exclusive_call_print_children_call.induct)
  case (1 nd name indent)
  then show ?case by simp
next
  case (2 depth nd name indent)
  obtain st ch where nd: "nd = Node st ch" by (cases nd)
  have "height_children (children nd) \<le> depth" using "2.prems" nd by simp
  then show ?case using "2.IH" nd by (simp add: node_line_eq printed_def)
next
  case (3 depth indent)
  then show ?case by (simp add: printed_def)
next
  case (4 depth child_name child rest indent)
  then show ?case by (simp add: printed_append)
qed

lemma fits_Suc:
  "fits (Suc depth) items
     = (1 \<le> depth \<and> list_all (\<lambda>item. length (split (fst item)) < depth) items)"
  by (auto simp: fits_def list_all_iff)

lemma height_build_tree:
  assumes "1 \<le> depth" and "list_all (\<lambda>item. length (split (fst item)) < depth) items"
  shows "height (build_tree items) < depth"
proof -
  have "list_all (\<lambda>item. length (split (fst item)) \<le> depth - 1) items"
    using assms by (auto simp: list_all_iff)
  then have "height (foldl build_step (Node [] []) items) \<le> depth - 1"
    by (rule height_foldl) simp
  then show ?thesis using assms(1) by (simp add: build_tree_def)
qed

lemma print_timing_summary_call_eq:
  "print_timing_summary_call depth w
     = (if fits depth (all_times w)
        then (w, header # printed (visit_children (children (build_tree (all_times w))) 1), None)
        else (w, if depth = 1 \<and> all_times w = [] then [header] else [], Some RecursionError))"
proof (cases depth)
  case 0
  then show ?thesis by (simp add: fits_def)
next
  case (Suc d)
  show ?thesis
  proof (cases "list_all (\<lambda>item. length (split (fst item)) < d) (all_times w)")
    case False
    then have "\<not> fits depth (all_times w)" using Suc by (simp add: fits_Suc)
    moreover have "all_times w \<noteq> []" using False by auto
    ultimately show ?thesis using Suc False by (simp add: build_call_eq)
  next
    case True
    note names = this
    show ?thesis
    proof (cases d)
      case 0
      then have "all_times w = []" using names by (cases "all_times w") simp_all
      then show ?thesis using Suc 0 by (simp add: fits_def)
    next
      case (Suc d')
      then have d1: "1 \<le> d" by simp
      have fit: "fits depth (all_times w)" using \<open>depth = Suc d\<close> d1 names by (simp add: fits_Suc)
      have h: "height (build_tree (all_times w)) < d"
        using height_build_tree [OF d1 names] .
      obtain st ch where t: "build_tree (all_times w) = Node st ch"
        by (cases "build_tree (all_times w)")
      have "print_exclusive_call d (build_tree (all_times w)) [] 0
          = (printed (visit (build_tree (all_times w)) [] 0), None)"
        using h by (rule print_call_eq)
      then show ?thesis
        using \<open>depth = Suc d\<close> names fit t
        by (simp add: build_call_eq build_tree_def [symmetric] printed_def)
    qed
  qed
qed

subsection \<open>An enabled \<^verbatim>\<open>Timer\<close> records\<close>

text \<open>
  For comparison with the disabled scope: an enabled scope around a body that lets the
  device clock advance by \<open>d\<close> creates two events, records both, synchronises once and
  appends \<open>d\<close> to the samples of its name.
\<close>

lemma enabled_scope_records:
  "timed_scope nm True (\<lambda>w. w\<lparr>clock := clock w + d\<rparr>)
       \<lparr>all_times = [], events = [], clock = t0, syncs = 0\<rparr>
     = Inr (\<lparr>timer_name = nm, timer_enabled = True, timer_start = Some 0, timer_end = Some 1\<rparr>,
            \<lparr>all_times = [(nm, [d])], events = [Some t0, Some (t0 + d)],
             clock = t0 + d, syncs = 1\<rparr>)"
  by (simp add: timed_scope_def Timer_init_def Timer_enter_def Timer_exit_def new_event_def
      record_event_def synchronize_def elapsed_time_def)

lemma append_sample_keys:
  "map fst (append_sample s k v) = (if k \<in> set (map fst s) then map fst s else map fst s @ [k])"
  by (induction s k v rule: append_sample.induct) auto

lemma append_sample_distinct:
  "distinct (map fst s) \<Longrightarrow> distinct (map fst (append_sample s k v))"
  by (simp add: append_sample_keys)

subsection \<open>Evaluating the report on a concrete dictionary\<close>

lemma replicate_numeral: "replicate (numeral k) x = x # replicate (pred_numeral k) x"
  by (simp add: numeral_eq_Suc)

lemma pad_of_spaces: "pad_of indent = replicate (4 * indent) (CHR '' '')"
  by (induction indent) (simp_all add: pad_of_def replicate_add replicate_numeral)

lemmas tree_eval = build_tree_def build_step_def split_def

lemma show_nat_numeral:
  "show_nat (numeral k) =
     (if (numeral k :: nat) < 10 then [digit_char (numeral k)]
      else show_nat (numeral k div 10) @ [digit_char (numeral k mod 10)])"
  by (rule show_nat.simps)

lemma show_nat_digit: "n < 10 \<Longrightarrow> show_nat n = [digit_char n]"
  by (simp add: show_nat.simps)

lemmas report_eval = print_timing_summary_def build_tree_def build_step_def split_def
  node_stats_def py_sum_def truediv_def node_line_def format_line_def pad_of_def ljust_def

lemmas number_eval = format_f_def round_half_even_def Let_def digit_char_def
  show_nat_numeral show_nat_digit replicate_numeral

lemma node_line_large_sum:
  "node_line (Node [10000000000000000, 1] []) ''a'' 1
     = Inr ''    a               total 10000000000000000 ms   2 runs   avg 5000000000000000.00 ms''"
proof -
  have "round_double (10000000000000000 / 2) = 5000000000000000"
    using round_double_int [of 5000000000000000] by simp
  then have "node_stats (Node [10000000000000000, 1] [])
      = Inr (10000000000000000, 2, 5000000000000000)"
    by (simp add: node_stats_def truediv_def py_sum_rounds float_eval)
  then show ?thesis
    by (simp add: node_line_def format_line_def pad_of_def ljust_def) (simp add: number_eval)
qed

lemma node_line_rounded_quotient:
  "node_line (Node [1 / 8, 0, 0, 0, 0] []) ''a'' 1
     = Inr ''    a               total 0 ms   5 runs   avg 0.03 ms''
   \<and> format_f 2 (1 / 8 / 5) = ''0.02''"
proof -
  have "node_stats (Node [1 / 8, 0, 0, 0, 0] []) = Inr (1 / 8, 5, 7205759403792794 / 2 ^ 58)"
    using truediv_rounds by (simp add: node_stats_def py_sum_eighth truediv_def float_eval)
  then show ?thesis
    by (simp add: node_line_def format_line_def pad_of_def ljust_def) (simp add: number_eval)
qed

section \<open>The claims\<close>

text \<open>
  C2. With \<^verbatim>\<open>all_times\<close> holding \<open>[10.0, 20.0]\<close> under \<^verbatim>\<open>"stage1.sub"\<close> and \<open>[5.0]\<close> under
  \<^verbatim>\<open>"stage1"\<close> and nothing else, in either insertion order, the tree has the node
  \<^verbatim>\<open>stage1\<close> with the one sample \<open>5\<close> and below it the node \<^verbatim>\<open>sub\<close> with the samples
  \<open>10, 20\<close>; their statistics are total 5, count 1, average 5 and total 30, count 2,
  average 15; and the report prints exactly these two lines after the header.
\<close>

theorem scenario_stage1_report:
  "build_tree [(''stage1.sub'', [10, 20]), (''stage1'', [5])]
     = Node [] [(''stage1'', Node [5] [(''sub'', Node [10, 20] [])])]
   \<and> build_tree [(''stage1'', [5]), (''stage1.sub'', [10, 20])]
     = Node [] [(''stage1'', Node [5] [(''sub'', Node [10, 20] [])])]
   \<and> node_stats (Node [5] [(''sub'', Node [10, 20] [])]) = Inr (5, 1, 5)
   \<and> node_stats (Node [10, 20] []) = Inr (30, 2, 15)
   \<and> print_timing_summary
         \<lparr>all_times = [(''stage1.sub'', [10, 20]), (''stage1'', [5])],
          events = ev, clock = c, syncs = n\<rparr>
     = Inr (\<lparr>all_times = [(''stage1.sub'', [10, 20]), (''stage1'', [5])],
             events = ev, clock = c, syncs = n\<rparr>,
            [header,
             ''    stage1          total 5 ms   1 runs   avg 5.00 ms'',
             ''        sub             total 30 ms   2 runs   avg 15.00 ms''])
   \<and> print_timing_summary
         \<lparr>all_times = [(''stage1'', [5]), (''stage1.sub'', [10, 20])],
          events = ev, clock = c, syncs = n\<rparr>
     = Inr (\<lparr>all_times = [(''stage1'', [5]), (''stage1.sub'', [10, 20])],
             events = ev, clock = c, syncs = n\<rparr>,
            [header,
             ''    stage1          total 5 ms   1 runs   avg 5.00 ms'',
             ''        sub             total 30 ms   2 runs   avg 15.00 ms''])"
  by (simp add: report_eval float_eval) (simp add: number_eval)

text \<open>
  C3, as stated, fails: \<^verbatim>\<open>"".split(".")\<close> is \<^verbatim>\<open>[""]\<close>, one empty segment, not the empty
  list. With the sample \<open>1\<close> recorded under the empty name, the root keeps an empty
  \<^verbatim>\<open>self_times\<close> and the sample sits in the child of the root whose name is the empty
  string.
\<close>

theorem empty_name_not_on_root:
  "split [] = [[]]
   \<and> self_times (build_tree [([], [1])]) = []
   \<and> children (build_tree [([], [1])]) = [([], Node [1] [])]"
  by (simp add: tree_eval)

text \<open>
  C3, amended: when the dictionary has the empty string as a key, the samples recorded
  under it are the \<^verbatim>\<open>self_times\<close> of the child of the root named by the empty string,
  and the \<^verbatim>\<open>self_times\<close> of the root itself are empty.
\<close>

theorem empty_name_attaches_to_child:
  assumes "distinct (map fst s)" and "map_of s [] = Some vs"
  shows "self_times (build_tree s) = [] \<and>
    (\<exists>nd. map_of (children (build_tree s)) [] = Some nd \<and> self_times nd = vs)"
proof -
  have "([], vs) \<in> set s" using assms(2) by (rule map_of_SomeD)
  then have "has_node (build_tree s) [[]]"
    unfolding has_node_build by (force simp: split_def)
  then obtain nd where nd: "map_of (children (build_tree s)) [] = Some nd"
    by (auto simp: has_node_Cons split: option.splits)
  have "samples_at (build_tree s) [[]] = vs"
    by (simp add: samples_at_build split_single_empty filter_key_distinct [OF assms])
  then have "self_times nd = vs" using nd by (simp add: samples_at_Cons samples_at_Nil)
  then show ?thesis using nd root_self_times by simp
qed

text \<open>C3, amended, at the dictionary \<^verbatim>\<open>{"a": [2.0], "": [1.0, 3.0]}\<close>.\<close>

theorem empty_name_attaches_to_child_witness:
  "self_times (build_tree [(''a'', [2]), ([], [1, 3])]) = [] \<and>
    (\<exists>nd. map_of (children (build_tree [(''a'', [2]), ([], [1, 3])])) [] = Some nd
        \<and> self_times nd = [1, 3])"
  using empty_name_attaches_to_child [of "[(''a'', [2]), ([], [1, 3])]" "[1, 3]"] by simp

text \<open>
  C6. When the dictionary holds exactly the names \<^verbatim>\<open>"x.y"\<close> and \<^verbatim>\<open>"x.z"\<close>, with any sample
  lists and in either insertion order, the root has the single child \<^verbatim>\<open>x\<close>, which has no
  samples of its own and exactly the two children \<^verbatim>\<open>y\<close> and \<^verbatim>\<open>z\<close>; \<^verbatim>\<open>y\<close> holds the samples
  of \<^verbatim>\<open>"x.y"\<close> only and \<^verbatim>\<open>z\<close> those of \<^verbatim>\<open>"x.z"\<close> only. And whatever other names a
  dictionary holds beside these two, exactly one child of the root is named \<^verbatim>\<open>x\<close>, exactly
  one child of that node is named \<^verbatim>\<open>y\<close> and exactly one \<^verbatim>\<open>z\<close>, and these two hold the
  sample lists of \<^verbatim>\<open>"x.y"\<close> and of \<^verbatim>\<open>"x.z"\<close>.
\<close>

theorem shared_prefix_tree:
  "build_tree [(''x.y'', ys), (''x.z'', zs)]
     = Node [] [(''x'', Node [] [(''y'', Node ys []), (''z'', Node zs [])])]
   \<and> build_tree [(''x.z'', zs), (''x.y'', ys)]
     = Node [] [(''x'', Node [] [(''z'', Node zs []), (''y'', Node ys [])])]
   \<and> (distinct (map fst s) \<and> map_of s ''x.y'' = Some ys \<and> map_of s ''x.z'' = Some zs \<longrightarrow>
        (\<exists>nx ny nz.
           filter (\<lambda>kc. fst kc = ''x'') (children (build_tree s)) = [(''x'', nx)]
           \<and> filter (\<lambda>kc. fst kc = ''y'') (children nx) = [(''y'', ny)]
           \<and> filter (\<lambda>kc. fst kc = ''z'') (children nx) = [(''z'', nz)]
           \<and> self_times ny = ys \<and> self_times nz = zs))"
proof (intro conjI impI)
  show "build_tree [(''x.y'', ys), (''x.z'', zs)]
     = Node [] [(''x'', Node [] [(''y'', Node ys []), (''z'', Node zs [])])]"
    by (simp add: tree_eval)
  show "build_tree [(''x.z'', zs), (''x.y'', ys)]
     = Node [] [(''x'', Node [] [(''z'', Node zs []), (''y'', Node ys [])])]"
    by (simp add: tree_eval)
next
  assume a: "distinct (map fst s) \<and> map_of s ''x.y'' = Some ys \<and> map_of s ''x.z'' = Some zs"
  let ?root = "build_tree s"
  have sy: "split ''x.y'' = [''x'', ''y'']" and sz: "split ''x.z'' = [''x'', ''z'']"
    by (simp_all add: split_def)
  have "has_node ?root [''x'', ''y'']"
    using has_node_name [of "''x.y''" ys s] a sy by (simp add: map_of_SomeD)
  then obtain nx ny where nx: "map_of (children ?root) ''x'' = Some nx"
      and ny: "map_of (children nx) ''y'' = Some ny"
    by (auto simp: has_node_Cons split: option.splits)
  have "has_node ?root [''x'', ''z'']"
    using has_node_name [of "''x.z''" zs s] a sz by (simp add: map_of_SomeD)
  then obtain nz where nz: "map_of (children nx) ''z'' = Some nz"
    using nx by (auto simp: has_node_Cons split: option.splits)
  have kx: "keys_distinct nx"
    using keys_distinct_child [OF keys_distinct_build nx] .
  have "samples_at ?root [''x'', ''y''] = ys"
    using samples_at_name [of s "''x.y''" ys] a sy by simp
  then have vy: "self_times ny = ys"
    using nx ny by (simp add: samples_at_Cons samples_at_Nil)
  have "samples_at ?root [''x'', ''z''] = zs"
    using samples_at_name [of s "''x.z''" zs] a sz by simp
  then have vz: "self_times nz = zs"
    using nx nz by (simp add: samples_at_Cons samples_at_Nil)
  show "\<exists>nx ny nz.
           filter (\<lambda>kc. fst kc = ''x'') (children (build_tree s)) = [(''x'', nx)]
           \<and> filter (\<lambda>kc. fst kc = ''y'') (children nx) = [(''y'', ny)]
           \<and> filter (\<lambda>kc. fst kc = ''z'') (children nx) = [(''z'', nz)]
           \<and> self_times ny = ys \<and> self_times nz = zs"
    using only_child_named [OF keys_distinct_build nx] only_child_named [OF kx ny]
      only_child_named [OF kx nz] vy vz by blast
qed

text \<open>
  C6 at a dictionary that also holds the names \<^verbatim>\<open>"q"\<close> and \<^verbatim>\<open>"x.y.w"\<close>.
\<close>

theorem shared_prefix_tree_witness:
  "distinct (map fst [(''x.y'', [1]), (''q'', [5]), (''x.z'', [2, 3]), (''x.y.w'', [4::real])])
   \<and> map_of [(''x.y'', [1]), (''q'', [5]), (''x.z'', [2, 3]), (''x.y.w'', [4::real])] ''x.y''
       = Some [1]
   \<and> map_of [(''x.y'', [1]), (''q'', [5]), (''x.z'', [2, 3]), (''x.y.w'', [4::real])] ''x.z''
       = Some [2, 3]
   \<and> (\<exists>nx ny nz.
         filter (\<lambda>kc. fst kc = ''x'')
           (children (build_tree [(''x.y'', [1]), (''q'', [5]), (''x.z'', [2, 3]), (''x.y.w'', [4])]))
           = [(''x'', nx)]
         \<and> filter (\<lambda>kc. fst kc = ''y'') (children nx) = [(''y'', ny)]
         \<and> filter (\<lambda>kc. fst kc = ''z'') (children nx) = [(''z'', nz)]
         \<and> self_times ny = [1] \<and> self_times nz = [2, 3])"
  using shared_prefix_tree
    [of "[1]" "[2, 3]" "[(''x.y'', [1]), (''q'', [5]), (''x.z'', [2, 3]), (''x.y.w'', [4])]"]
  by simp

text \<open>
  C8. A timer created with \<^verbatim>\<open>enabled=False\<close> has no start and no end event, and creating
  it leaves the state as it was; entering and leaving it return the state they are given,
  whatever that state is; so a whole disabled scope changes the state only by what its body
  does: no event is created or recorded, nothing is synchronised, and \<^verbatim>\<open>all_times\<close> gets
  no key and no sample.
\<close>

theorem disabled_scope_noop:
  "Timer_init nm False w
     = (\<lparr>timer_name = nm, timer_enabled = False, timer_start = None, timer_end = None\<rparr>, w)
   \<and> Timer_enter (fst (Timer_init nm False w)) w1 = Inr w1
   \<and> Timer_exit (fst (Timer_init nm False w)) w2 = Inr w2
   \<and> timed_scope nm False body w = Inr (fst (Timer_init nm False w), body w)
   \<and> timed_scope nm False (\<lambda>w. w) w = Inr (fst (Timer_init nm False w), w)"
  by (simp add: Timer_init_def Timer_enter_def Timer_exit_def timed_scope_def)

text \<open>
  C7. A call of \<^verbatim>\<open>print_timing_summary\<close> that returns leaves the state (\<^verbatim>\<open>all_times\<close>
  included) as it found it, and two calls in a row print the same texts. With the lists
  as objects on a heap: when the values of \<^verbatim>\<open>all_times\<close> are references to allocated list
  objects, building the tree leaves every list object that existed before as it was (the
  tree's own lists are new objects), and the tree it builds, read as a value, is the tree
  built from the contents of those objects. With the recursion limit: a call leaves the
  state as it found it whether it returns or raises, it returns exactly when the names
  have room in the nested calls left, printing then the texts above, and a second call
  made on the state it leaves, with as many nested calls left, prints the same texts and
  ends in the same way.
\<close>

theorem report_twice_same:
  "(\<exists>out. print_timing_summary w = Inr (w, out) \<and> report_twice w = Inr (w, out, out))
   \<and> ((\<forall>item \<in> set items. snd item < length h) \<longrightarrow>
        take (length h) (snd (h_build_tree items h)) = h
        \<and> read_node (snd (h_build_tree items h)) (fst (h_build_tree items h))
            = build_tree (read_items h items))
   \<and> (\<exists>out exc. print_timing_summary_call depth w = (w, out, exc)
         \<and> print_timing_summary_call depth (fst (print_timing_summary_call depth w))
           = (w, out, exc)
         \<and> (if fits depth (all_times w)
             then exc = None \<and> print_timing_summary w = Inr (w, out)
             else exc = Some RecursionError))"
  using h_build_tree_ok [of items h]
  by (simp add: report_twice_def print_timing_summary_eq print_timing_summary_call_eq)

text \<open>
  C7 on the heap with the two list objects \<open>[1, 2]\<close> and \<open>[3]\<close>, recorded under \<^verbatim>\<open>"a.b"\<close> and
  \<^verbatim>\<open>"a"\<close>: three list objects are allocated for the three nodes and the first two objects
  are as before.
\<close>

theorem report_twice_same_witness:
  "h_build_tree [(''a.b'', 0), (''a'', 1)] [[1, 2], [3]]
     = (HNode 2 [(''a'', HNode 3 [(''b'', HNode 4 [])])], [[1, 2], [3], [], [3], [1, 2]])
   \<and> take 2 (snd (h_build_tree [(''a.b'', 0), (''a'', 1)] [[1, 2], [3]])) = [[1, 2], [3]]
   \<and> read_node (snd (h_build_tree [(''a.b'', 0), (''a'', 1)] [[1, 2], [3]]))
        (fst (h_build_tree [(''a.b'', 0), (''a'', 1)] [[1, 2], [3]]))
      = build_tree [(''a.b'', [1, 2]), (''a'', [3])]"
proof -
  have ev: "h_build_tree [(''a.b'', 0), (''a'', 1)] [[1, 2], [3]]
     = (HNode 2 [(''a'', HNode 3 [(''b'', HNode 4 [])])], [[1, 2], [3], [], [3], [1, 2]])"
    by (simp add: h_build_tree_def h_build_step_def new_node_def list_extend_def split_def)
  show ?thesis
    using ev report_twice_same [of _ "[(''a.b'', 0), (''a'', 1)]" "[[1, 2], [3]]"]
    by (simp add: read_items_def)
qed




text \<open>
  C4, as stated, fails: the format string has a single space, not a TAB, between the padded
  name and the word \<^verbatim>\<open>total\<close>. With the one sample \<open>1\<close> under the name \<^verbatim>\<open>"a"\<close> the report
  is the header and the line below, which is not the line with a TAB in that place.
\<close>

theorem line_has_no_tab:
  "print_timing_summary \<lparr>all_times = [(''a'', [1])], events = [], clock = 0, syncs = 0\<rparr>
     = Inr (\<lparr>all_times = [(''a'', [1])], events = [], clock = 0, syncs = 0\<rparr>,
            [CHR 0x0A # ''=== timing summary ==='',
             ''    a               total 1 ms   1 runs   avg 1.00 ms''])
   \<and> ''    a               total 1 ms   1 runs   avg 1.00 ms''
     \<noteq> ''    a              '' @ CHR 0x09 # ''total 1 ms   1 runs   avg 1.00 ms''"
  by (simp add: report_eval header_def float_eval) (simp add: number_eval)

text \<open>
  C4, amended: the line of a node is the indentation of 4 spaces per level, the name
  left-aligned in a field of 15 characters, one space, and
  \<^verbatim>\<open>total <total:.0f> ms   <count> runs   avg <avg:.2f> ms\<close>, where total, count and avg
  are the three numbers computed for the node. A call of the report that does not run
  into the recursion limit prints the text \<^verbatim>\<open>"\n=== timing summary ==="\<close> (an empty line and
  the header line) and then the lines of the calls of \<^verbatim>\<open>_print_exclusive\<close> with a non-empty
  name, in call order, the children of the root being at level 1; one that does raises
  \<^verbatim>\<open>RecursionError\<close>, having printed nothing, or only the header when nothing is recorded
  and a single nested call is left.
\<close>

theorem report_format:
  "(\<exists>tot avg. node_stats nd = Inr (tot, length (self_times nd), avg)
      \<and> node_line nd name indent
        = Inr (replicate (4 * indent) (CHR '' '')
               @ name @ replicate (15 - length name) (CHR '' '')
               @ '' total '' @ format_f 0 tot
               @ '' ms   '' @ show_nat (length (self_times nd))
               @ '' runs   avg '' @ format_f 2 avg
               @ '' ms''))
   \<and> (\<exists>below.
         map Inr below
           = map (\<lambda>(indent, name, nd). node_line nd name indent)
               (filter (\<lambda>(indent, name, nd). name \<noteq> [])
                  (visit_children (children (build_tree (all_times w))) 1))
         \<and> print_timing_summary_call depth w
           = (if fits depth (all_times w)
              then (w, (CHR 0x0A # ''=== timing summary ==='') # below, None)
              else (w, if depth = 1 \<and> all_times w = []
                       then [CHR 0x0A # ''=== timing summary ===''] else [],
                    Some RecursionError)))"
proof (intro conjI)
  show "\<exists>tot avg. node_stats nd = Inr (tot, length (self_times nd), avg)
      \<and> node_line nd name indent
        = Inr (replicate (4 * indent) (CHR '' '')
               @ name @ replicate (15 - length name) (CHR '' '')
               @ '' total '' @ format_f 0 tot
               @ '' ms   '' @ show_nat (length (self_times nd))
               @ '' runs   avg '' @ format_f 2 avg
               @ '' ms'')"
    by (simp add: node_stats_eq node_line_def format_line_def pad_of_spaces ljust_def)
  have "map Inr (printed calls)
      = map (\<lambda>(indent, name, nd). node_line nd name indent)
          (filter (\<lambda>(indent, name, nd). name \<noteq> []) calls)" for calls
    by (simp add: printed_def node_line_eq case_prod_unfold)
  then show "\<exists>below.
         map Inr below
           = map (\<lambda>(indent, name, nd). node_line nd name indent)
               (filter (\<lambda>(indent, name, nd). name \<noteq> [])
                  (visit_children (children (build_tree (all_times w))) 1))
         \<and> print_timing_summary_call depth w
           = (if fits depth (all_times w)
              then (w, (CHR 0x0A # ''=== timing summary ==='') # below, None)
              else (w, if depth = 1 \<and> all_times w = []
                       then [CHR 0x0A # ''=== timing summary ===''] else [],
                    Some RecursionError))"
    unfolding print_timing_summary_call_eq header_def by blast
qed

text \<open>
  C5, as stated, fails: a node whose name is the empty string is visited but not printed.
  With the one sample \<open>1\<close> under \<^verbatim>\<open>"a..b"\<close> the tree has the node with path \<^verbatim>\<open>"a"\<close>, \<^verbatim>\<open>""\<close>,
  which has no samples of its own and the child \<^verbatim>\<open>b\<close>; the report has a line for \<^verbatim>\<open>a\<close> and
  a line for \<^verbatim>\<open>b\<close> and none for the node between them.
\<close>

theorem empty_segment_node_skipped:
  "find_node (build_tree [(''a..b'', [1])]) [''a'', ''''] = Some (Node [] [(''b'', Node [1] [])])
   \<and> print_timing_summary \<lparr>all_times = [(''a..b'', [1])], events = [], clock = 0, syncs = 0\<rparr>
     = Inr (\<lparr>all_times = [(''a..b'', [1])], events = [], clock = 0, syncs = 0\<rparr>,
            [header,
             ''    a               total 0 ms   0 runs   avg 0.00 ms'',
             ''            b               total 1 ms   1 runs   avg 1.00 ms''])"
  by (simp add: report_eval float_eval) (simp add: number_eval)

text \<open>
  C5, amended: for every node, total is the float sum of its samples, count their number,
  and avg the float quotient of total by count, or \<open>0\<close> when there are no samples. When the
  names of the dictionary have room in the nested calls left, the report ends normally
  and every node of the tree other than the root whose own name is not the empty string
  has its line in it, at the level that is the length of its path; when the node has no
  samples of its own that line shows total 0, 0 runs and avg 0.00. (Nodes whose name is
  the empty string are not printed.)
\<close>

theorem named_nodes_all_printed:
  assumes "find_node (build_tree (all_times w)) path = Some nd"
    and "path \<noteq> []" and "last path \<noteq> []" and "fits depth (all_times w)"
  shows "\<exists>out ln tot avg. print_timing_summary_call depth w = (w, out, None)
    \<and> node_stats nd = Inr (tot, length (self_times nd), avg)
    \<and> tot = py_sum (self_times nd)
    \<and> avg = (if 0 < length (self_times nd)
             then round_double (tot / round_double (real (length (self_times nd)))) else 0)
    \<and> node_line nd (last path) (length path) = Inr ln
    \<and> ln = replicate (4 * length path) (CHR '' '') @ ljust 15 (last path)
           @ '' total '' @ format_f 0 tot
           @ '' ms   '' @ show_nat (length (self_times nd))
           @ '' runs   avg '' @ format_f 2 avg @ '' ms''
    \<and> ln \<in> set out
    \<and> (self_times nd = [] \<longrightarrow>
         ln = replicate (4 * length path) (CHR '' '') @ ljust 15 (last path)
              @ '' total 0 ms   0 runs   avg 0.00 ms'')"
proof -
  obtain p ps where path: "path = p # ps" using assms(2) by (cases path) auto
  have "(1 + length ps, last (p # ps), nd)
      \<in> set (visit_children (children (build_tree (all_times w))) 1)"
    using find_node_visited [of "build_tree (all_times w)" p ps nd 1] assms(1) path by simp
  then have visited: "(length path, last path, nd)
      \<in> set (filter (\<lambda>(indent, name, nd). name \<noteq> [])
               (visit_children (children (build_tree (all_times w))) 1))"
    using assms(3) path by simp
  have "line_of (length path) (last path) nd
      \<in> set (printed (visit_children (children (build_tree (all_times w))) 1))"
    unfolding printed_def set_map using visited by force
  then have printed: "line_of (length path) (last path) nd
      \<in> set (header # printed (visit_children (children (build_tree (all_times w))) 1))"
    by simp
  let ?out = "header # printed (visit_children (children (build_tree (all_times w))) 1)"
  let ?ln = "line_of (length path) (last path) nd"
  let ?tot = "py_sum (self_times nd)"
  let ?avg = "if 0 < length (self_times nd)
      then round_double (?tot / round_double (real (length (self_times nd)))) else 0"
  have returns: "print_timing_summary_call depth w = (w, ?out, None)"
    using assms(4) by (simp add: print_timing_summary_call_eq)
  have stats: "node_stats nd = Inr (?tot, length (self_times nd), ?avg)"
    by (simp add: node_stats_eq)
  have line: "node_line nd (last path) (length path) = Inr ?ln"
    by (rule node_line_eq)
  have layout: "?ln = replicate (4 * length path) (CHR '' '') @ ljust 15 (last path)
        @ '' total '' @ format_f 0 ?tot
        @ '' ms   '' @ show_nat (length (self_times nd))
        @ '' runs   avg '' @ format_f 2 ?avg @ '' ms''"
    by (simp add: line_of_def format_line_def pad_of_spaces)
  have zero: "self_times nd = [] \<longrightarrow>
      ?ln = replicate (4 * length path) (CHR '' '') @ ljust 15 (last path)
        @ '' total 0 ms   0 runs   avg 0.00 ms''"
    by (simp add: line_of_def format_line_def pad_of_spaces py_sum_Nil number_eval)
  show ?thesis
    by (rule exI [of _ ?out], rule exI [of _ ?ln], rule exI [of _ ?tot], rule exI [of _ ?avg])
       (intro conjI returns stats refl line layout printed zero)
qed

text \<open>
  C5, amended, at the dictionary \<^verbatim>\<open>{"ns.leaf": [2.0, 4.0]}\<close> with four nested calls left: the
  node \<^verbatim>\<open>ns\<close> has no samples of its own, has a child, and is printed with zeros.
\<close>

theorem named_nodes_all_printed_witness:
  "find_node (build_tree (all_times \<lparr>all_times = [(''ns.leaf'', [2, 4])],
                                     events = [], clock = 0, syncs = 0\<rparr>)) [''ns'']
     = Some (Node [] [(''leaf'', Node [2, 4] [])])
   \<and> [''ns''] \<noteq> [] \<and> last [''ns''] \<noteq> []
   \<and> fits 4 [(''ns.leaf'', [2, 4])]
   \<and> (\<exists>out. print_timing_summary_call 4
                \<lparr>all_times = [(''ns.leaf'', [2, 4])], events = [], clock = 0, syncs = 0\<rparr>
              = (\<lparr>all_times = [(''ns.leaf'', [2, 4])],
                   events = [], clock = 0, syncs = 0\<rparr>, out, None)
          \<and> ''    ns              total 0 ms   0 runs   avg 0.00 ms'' \<in> set out)"
proof -
  have h: "find_node (build_tree (all_times \<lparr>all_times = [(''ns.leaf'', [2, 4])],
                                     events = [], clock = 0, syncs = 0\<rparr>)) [''ns'']
     = Some (Node [] [(''leaf'', Node [2, 4] [])])"
    by (simp add: tree_eval)
  have ne: "[''ns''] \<noteq> []" "last [''ns''] \<noteq> []" by simp_all
  have f: "fits 4 (all_times \<lparr>all_times = [(''ns.leaf'', [2, 4])],
                                     events = [], clock = 0, syncs = 0\<rparr>)"
    by (simp add: fits_def split_def)
  obtain out ln where out: "print_timing_summary_call 4
        \<lparr>all_times = [(''ns.leaf'', [2, 4])], events = [], clock = 0, syncs = 0\<rparr>
      = (\<lparr>all_times = [(''ns.leaf'', [2, 4])], events = [], clock = 0, syncs = 0\<rparr>, out, None)"
    and mem: "ln \<in> set out"
    and zero: "self_times (Node [] [(''leaf'', Node [2, 4] [])]) = [] \<longrightarrow>
         ln = replicate (4 * length [''ns'']) (CHR '' '') @ ljust 15 (last [''ns''])
              @ '' total 0 ms   0 runs   avg 0.00 ms''"
    using named_nodes_all_printed [OF h ne f] by blast
  have "ln = ''    ns              total 0 ms   0 runs   avg 0.00 ms''"
    using zero by (simp add: ljust_def replicate_numeral)
  then show ?thesis using h f out mem by auto
qed

text \<open>
  C1. For every dictionary and every node of the tree built from it, reached from the root
  along \<open>path\<close>: the \<^verbatim>\<open>self_times\<close> of the node are the concatenation, in dictionary
  order, of the sample lists of exactly the names whose \<^verbatim>\<open>split(".")\<close> is \<open>path\<close>; the count
  computed for it is the number of those samples, and its decimal digits stand in the
  line of the node between \<^verbatim>\<open>" ms   "\<close> and \<^verbatim>\<open>" runs"\<close>; when the name of the node is not
  empty and the names have room in the nested calls left, the report ends normally and
  has that line, at the level that is the length of \<open>path\<close>; and the samples of a name
  that continues deeper (\<open>path\<close> followed by further segments \<open>rest\<close>) are the
  \<^verbatim>\<open>self_times\<close> of the node found from this one along \<open>rest\<close>, a node different from this
  one.
\<close>

theorem self_times_exact_path:
  assumes "find_node (build_tree (all_times w)) path = Some nd"
  shows "self_times nd
      = concat (map snd (filter (\<lambda>item. split (fst item) = path) (all_times w)))
    \<and> (\<exists>tot avg.
          node_stats nd
            = Inr (tot, length (concat (map snd (filter (\<lambda>item. split (fst item) = path)
                                                   (all_times w)))), avg)
        \<and> node_line nd name indent
            = Inr (replicate (4 * indent) (CHR '' '')
                   @ name @ replicate (15 - length name) (CHR '' '')
                   @ '' total '' @ format_f 0 tot
                   @ '' ms   ''
                   @ show_nat (length (concat (map snd (filter (\<lambda>item. split (fst item) = path)
                                                          (all_times w)))))
                   @ '' runs   avg '' @ format_f 2 avg
                   @ '' ms'')
        \<and> (path \<noteq> [] \<and> last path \<noteq> [] \<and> fits depth (all_times w) \<longrightarrow>
             (\<exists>out. print_timing_summary_call depth w = (w, out, None)
                \<and> replicate (4 * length path) (CHR '' '')
                   @ last path @ replicate (15 - length (last path)) (CHR '' '')
                   @ '' total '' @ format_f 0 tot
                   @ '' ms   ''
                   @ show_nat (length (concat (map snd (filter (\<lambda>item. split (fst item) = path)
                                                          (all_times w)))))
                   @ '' runs   avg '' @ format_f 2 avg
                   @ '' ms'' \<in> set out)))
    \<and> ((nm, l) \<in> set (all_times w) \<and> split nm = path @ rest \<and> rest \<noteq> [] \<longrightarrow>
          (\<exists>d. find_node nd rest = Some d \<and> d \<noteq> nd \<and>
             self_times d
               = concat (map snd (filter (\<lambda>item. split (fst item) = path @ rest)
                                    (all_times w)))))"
proof (intro conjI impI)
  let ?s = "all_times w"
  let ?own = "concat (map snd (filter (\<lambda>item. split (fst item) = path) ?s))"
  let ?tot = "py_sum (self_times nd)"
  let ?avg = "if self_times nd = [] then 0
      else round_double (?tot / round_double (real (length (self_times nd))))"
  show own: "self_times nd = ?own"
    using find_node_samples [OF assms] samples_at_build [of ?s path] by simp
  have stats: "node_stats nd = Inr (?tot, length ?own, ?avg)"
    using node_stats_eq [of nd] by (simp only: own [symmetric])
  have layout: "line_of i n nd
      = replicate (4 * i) (CHR '' '') @ n @ replicate (15 - length n) (CHR '' '')
        @ '' total '' @ format_f 0 ?tot @ '' ms   '' @ show_nat (length ?own)
        @ '' runs   avg '' @ format_f 2 ?avg @ '' ms''" for i n
    unfolding own [symmetric]
    by (simp add: line_of_def format_line_def pad_of_spaces ljust_def)
  have line: "node_line nd name indent
      = Inr (replicate (4 * indent) (CHR '' '') @ name @ replicate (15 - length name) (CHR '' '')
        @ '' total '' @ format_f 0 ?tot @ '' ms   '' @ show_nat (length ?own)
        @ '' runs   avg '' @ format_f 2 ?avg @ '' ms'')"
    unfolding node_line_eq layout ..
  have report: "\<exists>out. print_timing_summary_call depth w = (w, out, None)
      \<and> replicate (4 * length path) (CHR '' '')
        @ last path @ replicate (15 - length (last path)) (CHR '' '')
        @ '' total '' @ format_f 0 ?tot @ '' ms   '' @ show_nat (length ?own)
        @ '' runs   avg '' @ format_f 2 ?avg @ '' ms'' \<in> set out"
    if named: "path \<noteq> [] \<and> last path \<noteq> [] \<and> fits depth ?s"
  proof -
    obtain p ps where path: "path = p # ps" using named by (cases path) auto
    have "(1 + length ps, last (p # ps), nd) \<in> set (visit_children (children (build_tree ?s)) 1)"
      using find_node_visited [of "build_tree ?s" p ps nd 1] assms path by simp
    then have "(length path, last path, nd)
        \<in> set (filter (\<lambda>(indent, name, nd). name \<noteq> [])
                 (visit_children (children (build_tree ?s)) 1))"
      using named path by simp
    then have "line_of (length path) (last path) nd
        \<in> set (printed (visit_children (children (build_tree ?s)) 1))"
      unfolding printed_def set_map by force
    then have "line_of (length path) (last path) nd
        \<in> set (header # printed (visit_children (children (build_tree ?s)) 1))"
      by simp
    moreover have "print_timing_summary_call depth w
        = (w, header # printed (visit_children (children (build_tree ?s)) 1), None)"
      using named by (simp add: print_timing_summary_call_eq)
    ultimately show ?thesis unfolding layout by blast
  qed
  show "\<exists>tot avg.
          node_stats nd = Inr (tot, length ?own, avg)
        \<and> node_line nd name indent
            = Inr (replicate (4 * indent) (CHR '' '')
                   @ name @ replicate (15 - length name) (CHR '' '')
                   @ '' total '' @ format_f 0 tot
                   @ '' ms   '' @ show_nat (length ?own)
                   @ '' runs   avg '' @ format_f 2 avg
                   @ '' ms'')
        \<and> (path \<noteq> [] \<and> last path \<noteq> [] \<and> fits depth (all_times w) \<longrightarrow>
             (\<exists>out. print_timing_summary_call depth w = (w, out, None)
                \<and> replicate (4 * length path) (CHR '' '')
                   @ last path @ replicate (15 - length (last path)) (CHR '' '')
                   @ '' total '' @ format_f 0 tot
                   @ '' ms   '' @ show_nat (length ?own)
                   @ '' runs   avg '' @ format_f 2 avg
                   @ '' ms'' \<in> set out))"
    by (rule exI [of _ ?tot], rule exI [of _ ?avg]) (intro conjI impI stats line, erule report)
next
  assume deeper: "(nm, l) \<in> set (all_times w) \<and> split nm = path @ rest \<and> rest \<noteq> []"
  then have "prefix (path @ rest) (split (fst (nm, l)))" by simp
  then have "has_node (build_tree (all_times w)) (path @ rest)"
    unfolding has_node_build using deeper by blast
  then obtain d where d: "find_node (build_tree (all_times w)) (path @ rest) = Some d"
    by (auto simp: has_node_def)
  then have below: "find_node nd rest = Some d"
    using assms by (simp add: find_node_append)
  have "size d < size nd"
    using find_node_smaller [OF below] deeper by simp
  then have "d \<noteq> nd" by auto
  moreover have "self_times d
        = concat (map snd (filter (\<lambda>item. split (fst item) = path @ rest) (all_times w)))"
    using find_node_samples [OF d] samples_at_build [of "all_times w" "path @ rest"] by simp
  ultimately show "\<exists>d. find_node nd rest = Some d \<and> d \<noteq> nd \<and>
             self_times d
               = concat (map snd (filter (\<lambda>item. split (fst item) = path @ rest)
                                    (all_times w)))"
    using below by blast
qed

text \<open>
  C1 at the dictionary \<^verbatim>\<open>{"a.b": [1.0, 3.0], "a": [3.0], "a.b.c": [4.0]}\<close> with five nested
  calls left, the node \<^verbatim>\<open>a.b\<close> and the deeper name \<^verbatim>\<open>"a.b.c"\<close>: the line of \<^verbatim>\<open>b\<close> shows
  the two samples of \<^verbatim>\<open>"a.b"\<close> only.
\<close>

theorem self_times_exact_path_witness:
  "find_node (build_tree [(''a.b'', [1, 3]), (''a'', [3]), (''a.b.c'', [4])]) [''a'', ''b'']
     = Some (Node [1, 3] [(''c'', Node [4] [])])
   \<and> self_times (Node [1, 3] [(''c'', Node [4] [])]) = [1, 3]
   \<and> node_stats (Node [1, 3] [(''c'', Node [4] [])]) = Inr (4, 2, 2)
   \<and> fits 5 [(''a.b'', [1, 3]), (''a'', [3]), (''a.b.c'', [4])]
   \<and> (\<exists>out. print_timing_summary_call 5
                \<lparr>all_times = [(''a.b'', [1, 3]), (''a'', [3]), (''a.b.c'', [4])],
                  events = [], clock = 0, syncs = 0\<rparr>
              = (\<lparr>all_times = [(''a.b'', [1, 3]), (''a'', [3]), (''a.b.c'', [4])],
                   events = [], clock = 0, syncs = 0\<rparr>, out, None)
          \<and> ''        b               total 4 ms   2 runs   avg 2.00 ms'' \<in> set out)
   \<and> (\<exists>d. find_node (Node [1, 3] [(''c'', Node [4] [])]) [''c''] = Some d
          \<and> d \<noteq> Node [1, 3] [(''c'', Node [4] [])] \<and> self_times d = [4])"
proof -
  let ?w = "\<lparr>all_times = [(''a.b'', [1, 3]), (''a'', [3]), (''a.b.c'', [4])],
             events = [], clock = 0, syncs = 0\<rparr>"
  let ?nd = "Node [1, 3] [(''c'', Node [4] [])]"
  have h: "find_node (build_tree (all_times ?w)) [''a'', ''b''] = Some ?nd"
    by (simp add: tree_eval)
  have f: "fits 5 (all_times ?w)" by (simp add: fits_def split_def)
  have st: "node_stats ?nd = Inr (4, 2, 2)"
    by (simp add: node_stats_eq py_sum_def float_eval)
  let ?n = "length (concat (map snd (filter (\<lambda>item. split (fst item) = [''a'', ''b''])
                                       (all_times ?w))))"
  note inst = self_times_exact_path [OF h, of "''b''" 2 5 "''a.b.c''" "[4]" "[''c'']"]
  from inst [THEN conjunct2, THEN conjunct1] obtain tot avg where
      stats: "node_stats ?nd = Inr (tot, ?n, avg)"
    and rep: "[''a'', ''b''] \<noteq> [] \<and> last [''a'', ''b''] \<noteq> [] \<and> fits 5 (all_times ?w) \<longrightarrow>
        (\<exists>out. print_timing_summary_call 5 ?w = (?w, out, None)
        \<and> replicate (4 * length [''a'', ''b'']) (CHR '' '')
          @ last [''a'', ''b''] @ replicate (15 - length (last [''a'', ''b''])) (CHR '' '')
          @ '' total '' @ format_f 0 tot @ '' ms   '' @ show_nat ?n
          @ '' runs   avg '' @ format_f 2 avg @ '' ms'' \<in> set out)"
    by blast
  have n: "?n = 2" by (simp add: split_def)
  have tot: "tot = 4" and avg: "avg = 2" using stats st by simp_all
  have ln: "replicate (4 * length [''a'', ''b'']) (CHR '' '')
          @ last [''a'', ''b''] @ replicate (15 - length (last [''a'', ''b''])) (CHR '' '')
          @ '' total '' @ format_f 0 4 @ '' ms   '' @ show_nat 2
          @ '' runs   avg '' @ format_f 2 2 @ '' ms''
      = ''        b               total 4 ms   2 runs   avg 2.00 ms''"
    by (simp add: number_eval)
  have out: "\<exists>out. print_timing_summary_call 5 ?w = (?w, out, None)
      \<and> ''        b               total 4 ms   2 runs   avg 2.00 ms'' \<in> set out"
    using rep f unfolding n tot avg ln by simp
  have deep: "\<exists>d. find_node ?nd [''c''] = Some d \<and> d \<noteq> ?nd \<and> self_times d = [4]"
    using inst by (simp add: split_def)
  show ?thesis
    using h f st out deep by simp
qed

text \<open>
  C10. A call of \<^verbatim>\<open>_print_exclusive\<close> with the empty name prints no line of its own: what
  it prints is what the loop over its children prints, each child being called one level
  deeper. A call with a non-empty name prints its line, which starts with 4 spaces per
  level, and then the same. The line of a child with a non-empty name therefore starts
  with 4 spaces more than the line of its parent does or, the parent's name being empty,
  would. So the samples of \<^verbatim>\<open>"a."\<close> give no line (only the node \<^verbatim>\<open>a\<close> is printed, without
  samples), those of \<^verbatim>\<open>""\<close> give no line at all, and for \<^verbatim>\<open>"a..b"\<close> the line of \<^verbatim>\<open>b\<close>
  starts with 12 spaces, 4 of them for the unprinted node. In general a report that ends
  normally has, after the header, the lines of the calls with a non-empty name.
\<close>

theorem empty_name_not_printed:
  "print_exclusive_call (Suc depth) nd [] indent
     = print_children_call depth (children nd) (indent + 1)
   \<and> (\<exists>tot avg below exc.
         node_stats nd = Inr (tot, length (self_times nd), avg)
       \<and> print_children_call depth (children nd) (indent + 1) = (below, exc)
       \<and> print_exclusive_call (Suc depth) nd (c # cs) indent
         = ((replicate (4 * indent) (CHR '' '')
             @ (c # cs) @ replicate (15 - length (c # cs)) (CHR '' '')
             @ '' total '' @ format_f 0 tot
             @ '' ms   '' @ show_nat (length (self_times nd))
             @ '' runs   avg '' @ format_f 2 avg @ '' ms'') # below, exc))
   \<and> (\<exists>tot avg others exc.
         node_stats child = Inr (tot, length (self_times child), avg)
       \<and> print_exclusive_call (Suc (Suc depth)) (Node st ((c # cs, child) # rest)) [] indent
         = ((replicate (4 * indent + 4) (CHR '' '')
             @ (c # cs) @ replicate (15 - length (c # cs)) (CHR '' '')
             @ '' total '' @ format_f 0 tot
             @ '' ms   '' @ show_nat (length (self_times child))
             @ '' runs   avg '' @ format_f 2 avg @ '' ms'') # others, exc))
   \<and> print_timing_summary_call (depth + 4)
         \<lparr>all_times = [(''a.'', vs)], events = ev, clock = t, syncs = n\<rparr>
       = (\<lparr>all_times = [(''a.'', vs)], events = ev, clock = t, syncs = n\<rparr>,
          [CHR 0x0A # ''=== timing summary ==='',
           ''    a               total 0 ms   0 runs   avg 0.00 ms''],
          None)
   \<and> print_timing_summary_call (depth + 3)
         \<lparr>all_times = [([], vs)], events = ev, clock = t, syncs = n\<rparr>
       = (\<lparr>all_times = [([], vs)], events = ev, clock = t, syncs = n\<rparr>,
          [CHR 0x0A # ''=== timing summary ===''],
          None)
   \<and> print_timing_summary_call (depth + 5)
         \<lparr>all_times = [(''a..b'', [1])], events = ev, clock = t, syncs = n\<rparr>
       = (\<lparr>all_times = [(''a..b'', [1])], events = ev, clock = t, syncs = n\<rparr>,
          [CHR 0x0A # ''=== timing summary ==='',
           ''    a               total 0 ms   0 runs   avg 0.00 ms'',
           ''            b               total 1 ms   1 runs   avg 1.00 ms''],
          None)
   \<and> (\<exists>lines.
         map Inr lines
           = map (\<lambda>(indent, name, nd). node_line nd name indent)
               (filter (\<lambda>(indent, name, nd). name \<noteq> [])
                  (visit_children (children (build_tree (all_times w))) 1))
       \<and> print_timing_summary_call depth w
         = (if fits depth (all_times w)
            then (w, (CHR 0x0A # ''=== timing summary ==='') # lines, None)
            else (w, if depth = 1 \<and> all_times w = []
                     then [CHR 0x0A # ''=== timing summary ===''] else [],
                  Some RecursionError)))"
proof (intro conjI)
  show "print_exclusive_call (Suc depth) nd [] indent
     = print_children_call depth (children nd) (indent + 1)"
    by (simp split: prod.split)
  have layout: "line_of i nm x
      = replicate (4 * i) (CHR '' '') @ nm @ replicate (15 - length nm) (CHR '' '')
        @ '' total '' @ format_f 0 (py_sum (self_times x))
        @ '' ms   '' @ show_nat (length (self_times x))
        @ '' runs   avg ''
        @ format_f 2 (if self_times x = [] then 0
            else round_double (py_sum (self_times x) / round_double (real (length (self_times x)))))
        @ '' ms''" for i nm x
    by (simp add: line_of_def format_line_def pad_of_spaces ljust_def)
  show "\<exists>tot avg below exc.
         node_stats nd = Inr (tot, length (self_times nd), avg)
       \<and> print_children_call depth (children nd) (indent + 1) = (below, exc)
       \<and> print_exclusive_call (Suc depth) nd (c # cs) indent
         = ((replicate (4 * indent) (CHR '' '')
             @ (c # cs) @ replicate (15 - length (c # cs)) (CHR '' '')
             @ '' total '' @ format_f 0 tot
             @ '' ms   '' @ show_nat (length (self_times nd))
             @ '' runs   avg '' @ format_f 2 avg @ '' ms'') # below, exc)"
    unfolding node_stats_eq
    by (cases "print_children_call depth (children nd) (indent + 1)")
      (simp add: node_line_eq layout)
  show "\<exists>tot avg others exc.
         node_stats child = Inr (tot, length (self_times child), avg)
       \<and> print_exclusive_call (Suc (Suc depth)) (Node st ((c # cs, child) # rest)) [] indent
         = ((replicate (4 * indent + 4) (CHR '' '')
             @ (c # cs) @ replicate (15 - length (c # cs)) (CHR '' '')
             @ '' total '' @ format_f 0 tot
             @ '' ms   '' @ show_nat (length (self_times child))
             @ '' runs   avg '' @ format_f 2 avg @ '' ms'') # others, exc)"
    unfolding node_stats_eq
    by (cases "print_children_call depth (children child) (Suc (indent + 1))";
        cases "print_children_call (Suc depth) rest (indent + 1)")
      (simp add: node_line_eq layout split: option.split)
  show "print_timing_summary_call (depth + 4)
         \<lparr>all_times = [(''a.'', vs)], events = ev, clock = t, syncs = n\<rparr>
       = (\<lparr>all_times = [(''a.'', vs)], events = ev, clock = t, syncs = n\<rparr>,
          [CHR 0x0A # ''=== timing summary ==='',
           ''    a               total 0 ms   0 runs   avg 0.00 ms''],
          None)"
    by (simp add: print_timing_summary_call_eq fits_def tree_eval printed_def header_def
          layout py_sum_Nil)
       (simp add: number_eval)
  show "print_timing_summary_call (depth + 3)
         \<lparr>all_times = [([], vs)], events = ev, clock = t, syncs = n\<rparr>
       = (\<lparr>all_times = [([], vs)], events = ev, clock = t, syncs = n\<rparr>,
          [CHR 0x0A # ''=== timing summary ===''],
          None)"
    by (simp add: print_timing_summary_call_eq fits_def tree_eval printed_def header_def)
  show "print_timing_summary_call (depth + 5)
         \<lparr>all_times = [(''a..b'', [1])], events = ev, clock = t, syncs = n\<rparr>
       = (\<lparr>all_times = [(''a..b'', [1])], events = ev, clock = t, syncs = n\<rparr>,
          [CHR 0x0A # ''=== timing summary ==='',
           ''    a               total 0 ms   0 runs   avg 0.00 ms'',
           ''            b               total 1 ms   1 runs   avg 1.00 ms''],
          None)"
    by (simp add: print_timing_summary_call_eq fits_def tree_eval printed_def header_def
          layout py_sum_def float_eval)
       (simp add: number_eval)
  have "map Inr (printed calls)
      = map (\<lambda>(indent, name, nd). node_line nd name indent)
          (filter (\<lambda>(indent, name, nd). name \<noteq> []) calls)" for calls
    by (simp add: printed_def node_line_eq case_prod_unfold)
  then show "\<exists>lines.
         map Inr lines
           = map (\<lambda>(indent, name, nd). node_line nd name indent)
               (filter (\<lambda>(indent, name, nd). name \<noteq> [])
                  (visit_children (children (build_tree (all_times w))) 1))
       \<and> print_timing_summary_call depth w
         = (if fits depth (all_times w)
            then (w, (CHR 0x0A # ''=== timing summary ==='') # lines, None)
            else (w, if depth = 1 \<and> all_times w = []
                     then [CHR 0x0A # ''=== timing summary ===''] else [],
                  Some RecursionError))"
    unfolding print_timing_summary_call_eq header_def by blast
qed

end
